theory Spec2Isabelle
  imports Complex_Main "HOL-Library.Multiset"
begin

section \<open>JavaScript strings\<close>

text \<open>
  A JavaScript string is a sequence of UTF-16 code units: \<open>length\<close> counts code
  units and a regular expression without the \<open>u\<close> flag matches code unit by code
  unit. A string is therefore modelled as the list of its code units, each an integer
  from 0 to 65535. Every literal of \<open>main.ts\<close> is written out as that list.
\<close>

type_synonym jchar = int
type_synonym jstring = "int list"

text \<open>White space as \<open>\s\<close> and \<open>trim()\<close> see it: the ECMAScript WhiteSpace
  and LineTerminator code units.\<close>

definition is_ws :: "jchar \<Rightarrow> bool" where
  "is_ws c = (c = 9 \<or> c = 10 \<or> c = 11 \<or> c = 12 \<or> c = 13 \<or> c = 32 \<or> c = 160
      \<or> c = 5760 \<or> (8192 \<le> c \<and> c \<le> 8202) \<or> c = 8232 \<or> c = 8233 \<or> c = 8239
      \<or> c = 8287 \<or> c = 12288 \<or> c = 65279)"

text \<open>Line terminators: the code units that \<open>.\<close> does not match.\<close>

definition is_lt :: "jchar \<Rightarrow> bool" where
  "is_lt c = (c = 10 \<or> c = 13 \<or> c = 8232 \<or> c = 8233)"

definition is_digit :: "jchar \<Rightarrow> bool" where
  "is_digit c = (48 \<le> c \<and> c \<le> 57)"

section \<open>Regular expressions as the source writes them\<close>

text \<open>
  The source works through regular expression literals. Each literal is embedded as a
  value of \<open>re\<close> that mirrors it token by token, and one matcher gives the ECMAScript
  backtracking semantics: \<open>rmatch r s\<close> lists every way \<open>r\<close> can match at the state
  \<open>s\<close>, in the order in which the backtracking matcher tries them, so the match that
  JavaScript reports is the head of the list.

  A class \<open>cls\<close> is a bracket expression (\<open>Cls\<close>), a negated one (\<open>NCls\<close>) or
  the dot; its items are single code units, \<open>\s\<close>, \<open>\S\<close> and \<open>\d\<close>. In \<open>re\<close>,
  \<open>Atom\<close> is one code unit of a class and \<open>Lit\<close> a literal sequence; \<open>Opt r\<close> is
  \<open>r?\<close> (first with \<open>r\<close>, then without); \<open>Star\<close> and \<open>Plus\<close> are the greedy
  \<open>*\<close> and \<open>+\<close> on a class (the longest run first), \<open>LazyStar\<close> and \<open>LazyPlus\<close>
  the lazy \<open>*?\<close> and \<open>+?\<close> (the shortest first); \<open>Group g r\<close> is the capturing
  group number \<open>g\<close> (a non-capturing group needs no constructor); \<open>Bol\<close> and
  \<open>Eol\<close> are \<open>^\<close> and \<open>$\<close> without the \<open>m\<close> flag; \<open>Ahead r\<close> is the
  lookahead \<open>(?=r)\<close>. The expressions of the source quantify single classes only and
  capture nothing inside a lookahead, and that is what the matcher covers.
\<close>

datatype citem = Ch jchar | Ws | NonWs | Dig

datatype cls = Cls "citem list" | NCls "citem list" | Dot

fun in_item :: "citem \<Rightarrow> jchar \<Rightarrow> bool" where
  "in_item (Ch x) c = (c = x)"
| "in_item Ws c = is_ws c"
| "in_item NonWs c = (\<not> is_ws c)"
| "in_item Dig c = is_digit c"

fun in_cls :: "cls \<Rightarrow> jchar \<Rightarrow> bool" where
  "in_cls (Cls items) c = list_ex (\<lambda>i. in_item i c) items"
| "in_cls (NCls items) c = (\<not> list_ex (\<lambda>i. in_item i c) items)"
| "in_cls Dot c = (\<not> is_lt c)"

datatype re =
    Atom cls
  | Lit jstring
  | Seq re re
  | Alt re re
  | Opt re
  | Star cls
  | Plus cls
  | LazyStar cls
  | LazyPlus cls
  | Group nat re
  | Bol
  | Eol
  | Ahead re

text \<open>A matcher state: the index reached in the subject string, the rest of the
  subject from there, and the capture groups set so far (the newest binding first).\<close>

datatype mstate = MS nat jstring "(nat \<times> jstring) list"

fun ms_pos :: "mstate \<Rightarrow> nat" where "ms_pos (MS p r c) = p"
fun ms_rest :: "mstate \<Rightarrow> jstring" where "ms_rest (MS p r c) = r"
fun ms_caps :: "mstate \<Rightarrow> (nat \<times> jstring) list" where "ms_caps (MS p r c) = c"

fun advance :: "nat \<Rightarrow> mstate \<Rightarrow> mstate" where
  "advance k (MS p r c) = MS (p + k) (drop k r) c"

fun capture :: "nat \<Rightarrow> mstate \<Rightarrow> mstate \<Rightarrow> mstate" where
  "capture g (MS p r c) (MS p' r' c') = MS p' r' ((g, take (p' - p) r) # c')"

definition run_len :: "cls \<Rightarrow> jstring \<Rightarrow> nat" where
  "run_len cl r = length (takeWhile (in_cls cl) r)"

fun rmatch :: "re \<Rightarrow> mstate \<Rightarrow> mstate list" where
  "rmatch (Atom cl) s =
     (case ms_rest s of [] \<Rightarrow> [] | x # xs \<Rightarrow> if in_cls cl x then [advance 1 s] else [])"
| "rmatch (Lit l) s =
     (if take (length l) (ms_rest s) = l then [advance (length l) s] else [])"
| "rmatch (Seq a b) s = concat (map (rmatch b) (rmatch a s))"
| "rmatch (Alt a b) s = rmatch a s @ rmatch b s"
| "rmatch (Opt a) s = rmatch a s @ [s]"
| "rmatch (Star cl) s = map (\<lambda>k. advance k s) (rev [0..<Suc (run_len cl (ms_rest s))])"
| "rmatch (Plus cl) s = map (\<lambda>k. advance k s) (rev [1..<Suc (run_len cl (ms_rest s))])"
| "rmatch (LazyStar cl) s = map (\<lambda>k. advance k s) [0..<Suc (run_len cl (ms_rest s))]"
| "rmatch (LazyPlus cl) s = map (\<lambda>k. advance k s) [1..<Suc (run_len cl (ms_rest s))]"
| "rmatch (Group g a) s = map (capture g s) (rmatch a s)"
| "rmatch Bol s = (if ms_pos s = 0 then [s] else [])"
| "rmatch Eol s = (if ms_rest s = [] then [s] else [])"
| "rmatch (Ahead a) s = (case rmatch a s of [] \<Rightarrow> [] | m # ms \<Rightarrow> [s])"

text \<open>The first match at a given index, if any.\<close>

definition match_at :: "re \<Rightarrow> nat \<Rightarrow> jstring \<Rightarrow> mstate option" where
  "match_at r p rest = (case rmatch r (MS p rest []) of [] \<Rightarrow> None | m # ms \<Rightarrow> Some m)"

text \<open>\<open>RegExp.prototype.exec\<close> from index 0 for a regular expression without the
  \<open>g\<close> flag, as \<open>String.prototype.match\<close> calls it: the leftmost index at which the
  expression matches. The result is the start index and the final matcher state.\<close>

fun search_from :: "re \<Rightarrow> nat \<Rightarrow> jstring \<Rightarrow> (nat \<times> mstate) option" where
  "search_from r p [] = (case match_at r p [] of None \<Rightarrow> None | Some m \<Rightarrow> Some (p, m))"
| "search_from r p (x # xs) =
     (case match_at r p (x # xs) of
        None \<Rightarrow> search_from r (Suc p) xs
      | Some m \<Rightarrow> Some (p, m))"

definition js_match :: "re \<Rightarrow> jstring \<Rightarrow> (nat \<times> mstate) option" where
  "js_match r s = search_from r 0 s"

text \<open>\<open>match[g]\<close>: the capture group \<open>g\<close> of a match, \<open>None\<close> for
  \<open>undefined\<close>.\<close>

definition group :: "mstate \<Rightarrow> nat \<Rightarrow> jstring option" where
  "group m g = map_of (ms_caps m) g"

text \<open>\<open>String.prototype.replace\<close> with a \<open>g\<close> regular expression: the subject is
  scanned from the left, every match is replaced and the scan goes on behind it; after
  an empty match the scan moves on by one code unit. The replacement is a function of
  the match (\<open>'$2'\<close> is the second group, \<open>''\<close> the empty string).\<close>

function replace_from :: "re \<Rightarrow> (mstate \<Rightarrow> jstring) \<Rightarrow> nat \<Rightarrow> jstring \<Rightarrow> jstring" where
  "replace_from r f p [] = (case match_at r p [] of None \<Rightarrow> [] | Some m \<Rightarrow> f m)"
| "replace_from r f p (x # xs) =
     (case match_at r p (x # xs) of
        None \<Rightarrow> x # replace_from r f (Suc p) xs
      | Some m \<Rightarrow>
          if length (ms_rest m) < length (x # xs)
          then f m @ replace_from r f (ms_pos m) (ms_rest m)
          else f m @ x # replace_from r f (Suc p) xs)"
  by pat_completeness auto
termination
  by (relation "measure (\<lambda>(r, f, p, s). length s)") auto

definition replace_all :: "re \<Rightarrow> (mstate \<Rightarrow> jstring) \<Rightarrow> jstring \<Rightarrow> jstring" where
  "replace_all r f s = replace_from r f 0 s"

text \<open>\<open>replace\<close> with a regular expression without the \<open>g\<close> flag: the first match
  only.\<close>

definition replace_first :: "re \<Rightarrow> (mstate \<Rightarrow> jstring) \<Rightarrow> jstring \<Rightarrow> jstring" where
  "replace_first r f s =
     (case js_match r s of
        None \<Rightarrow> s
      | Some (p, m) \<Rightarrow> take p s @ f m @ ms_rest m)"

definition dollar :: "nat \<Rightarrow> mstate \<Rightarrow> jstring" where
  "dollar g m = (case group m g of None \<Rightarrow> [] | Some v \<Rightarrow> v)"

definition trim :: "jstring \<Rightarrow> jstring" where
  "trim s = rev (dropWhile is_ws (rev (dropWhile is_ws s)))"

text \<open>\<open>s.split(sep)\<close> for a separator of one code unit.\<close>

fun split_on :: "jchar \<Rightarrow> jstring \<Rightarrow> jstring list" where
  "split_on sep [] = [[]]"
| "split_on sep (x # xs) =
     (if x = sep then [] # split_on sep xs
      else (case split_on sep xs of
              [] \<Rightarrow> [[x]]
            | l # ls \<Rightarrow> (x # l) # ls))"

text \<open>\<open>s.includes(t)\<close>.\<close>

fun str_includes :: "jstring \<Rightarrow> jstring \<Rightarrow> bool" where
  "str_includes [] t = (t = [])"
| "str_includes (x # xs) t = (take (length t) (x # xs) = t \<or> str_includes xs t)"

section \<open>The text cleaner\<close>

text \<open>
  \<open>cleanWikiText\<close> (in \<open>parseWikipediaContent\<close>) and \<open>cleanText\<close> (in
  \<open>parseTodayInfo\<close>) are the same chain of six replacements and a trim:
  \<^verbatim>\<open>
  text.replace(/\[\[([^\]|]+)\|([^\]]+)\]\]/g, '$2')
      .replace(/\[\[([^\]]+)\]\]/g, '$1')
      .replace(/\{\{[^}]+\}\}/g, '')
      .replace(/<[^>]+>/g, '')
      .replace(/\([^)]*\*[^)]*\)/g, '')
      .replace(/^[\s-]+|[\s-]+$/g, '')
      .trim()
  \<close>
  Code units: \<open>[\<close> 91, \<open>]\<close> 93, \<open>|\<close> 124, \<open>{\<close> 123, \<open>}\<close> 125, \<open><\<close> 60,
  \<open>>\<close> 62, \<open>(\<close> 40, \<open>)\<close> 41, \<open>*\<close> 42, \<open>-\<close> 45.
\<close>

definition re_piped_link :: re where
  "re_piped_link =
     Seq (Lit [91, 91]) (Seq (Group 1 (Plus (NCls [Ch 93, Ch 124])))
       (Seq (Lit [124]) (Seq (Group 2 (Plus (NCls [Ch 93]))) (Lit [93, 93]))))"

definition re_link :: re where
  "re_link = Seq (Lit [91, 91]) (Seq (Group 1 (Plus (NCls [Ch 93]))) (Lit [93, 93]))"

definition re_template :: re where
  "re_template = Seq (Lit [123, 123]) (Seq (Plus (NCls [Ch 125])) (Lit [125, 125]))"

definition re_tag :: re where
  "re_tag = Seq (Atom (Cls [Ch 60])) (Seq (Plus (NCls [Ch 62])) (Atom (Cls [Ch 62])))"

definition re_star_paren :: re where
  "re_star_paren =
     Seq (Atom (Cls [Ch 40])) (Seq (Star (NCls [Ch 41]))
       (Seq (Atom (Cls [Ch 42])) (Seq (Star (NCls [Ch 41])) (Atom (Cls [Ch 41])))))"

definition re_edges :: re where
  "re_edges = Alt (Seq Bol (Plus (Cls [Ws, Ch 45]))) (Seq (Plus (Cls [Ws, Ch 45])) Eol)"

definition cleanWikiText :: "jstring \<Rightarrow> jstring" where
  "cleanWikiText text =
     trim (replace_all re_edges (\<lambda>m. [])
       (replace_all re_star_paren (\<lambda>m. [])
         (replace_all re_tag (\<lambda>m. [])
           (replace_all re_template (\<lambda>m. [])
             (replace_all re_link (dollar 1)
               (replace_all re_piped_link (dollar 2) text))))))"

definition cleanText :: "jstring \<Rightarrow> jstring" where
  "cleanText text =
     trim (replace_all re_edges (\<lambda>m. [])
       (replace_all re_star_paren (\<lambda>m. [])
         (replace_all re_tag (\<lambda>m. [])
           (replace_all re_template (\<lambda>m. [])
             (replace_all re_link (dollar 1)
               (replace_all re_piped_link (dollar 2) text))))))"


section \<open>The wiki content parser\<close>

text \<open>
  Literals of the parsers, as code units. \<open>lit_nen\<close> is the year sign (U+5E74),
  \<open>lit_kigen\<close> and \<open>lit_zen\<close> are the two parts of the before-epoch prefix
  (U+7D00 U+5143, and U+524D), \<open>lit_touten\<close> is the ideographic comma (U+3001),
  \<open>lit_fw_lparen\<close> and \<open>lit_fw_rparen\<close> are the full-width parentheses
  (U+FF08, U+FF09).
\<close>

definition lit_nen :: jstring where "lit_nen = [24180]"
definition lit_kigen :: jstring where "lit_kigen = [32000, 20803]"
definition lit_zen :: jstring where "lit_zen = [21069]"
definition lit_touten :: jstring where "lit_touten = [12289]"
definition lit_fw_lparen :: jstring where "lit_fw_lparen = [65288]"
definition lit_fw_rparen :: jstring where "lit_fw_rparen = [65289]"

text \<open>\<open>': '\<close>, \<open>'Image:'\<close>, \<open>'File:'\<close>, \<open>'multiple image'\<close>, \<open>'{{'\<close>.\<close>

definition lit_colon_space :: jstring where "lit_colon_space = [58, 32]"
definition lit_Image :: jstring where "lit_Image = [73, 109, 97, 103, 101, 58]"
definition lit_File :: jstring where "lit_File = [70, 105, 108, 101, 58]"
definition lit_multiple_image :: jstring where
  "lit_multiple_image = [109, 117, 108, 116, 105, 112, 108, 101, 32, 105, 109, 97, 103, 101]"
definition lit_braces :: jstring where "lit_braces = [123, 123]"

text \<open>The section headings: \<open>'== dekigoto =='\<close> (events), \<open>'== tanjou'\<close> with its
  optional \<open>'bi'\<close> (births), \<open>'== kijitsu =='\<close> (deaths) and the persons
  sub-heading \<open>'=== jinbutsu ==='\<close>, each in its Japanese spelling.\<close>

definition lit_events_heading :: jstring where
  "lit_events_heading = [61, 61, 32, 12391, 12365, 12372, 12392, 32, 61, 61]"
definition lit_births_heading_start :: jstring where
  "lit_births_heading_start = [61, 61, 32, 35477, 29983]"
definition lit_hi :: jstring where "lit_hi = [26085]"
definition lit_heading_end :: jstring where "lit_heading_end = [32, 61, 61]"
definition lit_deaths_heading :: jstring where
  "lit_deaths_heading = [61, 61, 32, 24524, 26085, 32, 61, 61]"
definition lit_persons_heading :: jstring where
  "lit_persons_heading = [61, 61, 61, 32, 20154, 29289, 32, 61, 61, 61]"

text \<open>\<open>([\s\S]*?)(?=== [^=]|$)\<close>: the body of a section, up to the next
  \<open>'== '\<close> that is followed by something other than \<open>=\<close>, or to the end.\<close>

definition re_section_body :: re where
  "re_section_body =
     Seq (Group 1 (LazyStar (Cls [Ws, NonWs])))
       (Ahead (Alt (Seq (Lit [61, 61, 32]) (Atom (NCls [Ch 61]))) Eol))"

text \<open>\<^verbatim>\<open>/== dekigoto ==([\s\S]*?)(?=== [^=]|$)/\<close>\<close>

definition re_events_section :: re where
  "re_events_section = Seq (Lit lit_events_heading) re_section_body"

text \<open>\<^verbatim>\<open>/== tanjou(?:bi)? ==([\s\S]*?)(?=== [^=]|$)/\<close>\<close>

definition re_births_section :: re where
  "re_births_section =
     Seq (Lit lit_births_heading_start) (Seq (Opt (Lit lit_hi))
       (Seq (Lit lit_heading_end) re_section_body))"

text \<open>\<^verbatim>\<open>/== kijitsu ==([\s\S]*?)(?=== [^=]|$)/\<close>\<close>

definition re_deaths_section :: re where
  "re_deaths_section = Seq (Lit lit_deaths_heading) re_section_body"

text \<open>\<^verbatim>\<open>/=== jinbutsu ===([\s\S]*?)(?:=== |$)/\<close>\<close>

definition re_person_section :: re where
  "re_person_section =
     Seq (Lit lit_persons_heading) (Seq (Group 1 (LazyStar (Cls [Ws, NonWs])))
       (Alt (Lit [61, 61, 61, 32]) Eol))"

text \<open>\<^verbatim>\<open>^\*\s*(?:\[\[)?\<close>: the bullet that starts every entry line.\<close>

definition re_bullet :: re where
  "re_bullet = Seq Bol (Seq (Lit [42]) (Seq (Star (Cls [Ws])) (Opt (Lit [91, 91]))))"

text \<open>\<^verbatim>\<open>(?:\]\])?\s*-?\s*\<close>: what separates the year from the body.\<close>

definition re_dash :: "re \<Rightarrow> re" where
  "re_dash rest =
     Seq (Opt (Lit [93, 93])) (Seq (Star (Cls [Ws])) (Seq (Opt (Lit [45]))
       (Seq (Star (Cls [Ws])) rest)))"

text \<open>\<^verbatim>\<open>\d+nen?\<close>\<close>

definition re_year :: re where
  "re_year = Seq (Plus (Cls [Dig])) (Opt (Lit lit_nen))"

text \<open>The line of an event:
  \<^verbatim>\<open>/^\*\s*(?:\[\[)?(kigenzen?\d+nen?|\d+nen?)(?:\]\])?\s*-?\s*(.+?)(?:\.\s*$|$)/\<close>\<close>

definition re_event_line :: re where
  "re_event_line =
     Seq re_bullet
       (Seq (Group 1 (Alt (Seq (Lit lit_kigen) (Seq (Opt (Lit lit_zen)) re_year)) re_year))
         (re_dash
           (Seq (Group 2 (LazyPlus Dot))
             (Alt (Seq (Lit [46]) (Seq (Star (Cls [Ws])) Eol)) Eol))))"

text \<open>The line of a birth or a death; \<open>mark\<close> is \<open>+\<close> (43) for births and
  \<open>*\<close> (42) for deaths:
  \<^verbatim>\<open>/^\*\s*(?:\[\[)?(\d+nen?)(?:\]\])?\s*-?\s*(.+?)(?:,(.+?))?(?:\(\+|(\+|$)/\<close>
  where the comma is the ideographic comma and the second parenthesis is the full-width
  one.\<close>

definition re_person_line :: "jchar \<Rightarrow> re" where
  "re_person_line mark =
     Seq re_bullet
       (Seq (Group 1 re_year)
         (re_dash
           (Seq (Group 2 (LazyPlus Dot))
             (Seq (Opt (Seq (Lit lit_touten) (Group 3 (LazyPlus Dot))))
               (Alt (Lit [40, mark]) (Alt (Lit (lit_fw_lparen @ [mark])) Eol))))))"

definition re_birth_line :: re where "re_birth_line = re_person_line 43"
definition re_death_line :: re where "re_death_line = re_person_line 42"

text \<open>The \<open>for (const line of lines)\<close> loops push what a line yields, if
  anything, onto the end of the result array.\<close>

fun for_lines :: "(jstring \<Rightarrow> jstring option) \<Rightarrow> jstring list \<Rightarrow> jstring list \<Rightarrow> jstring list" where
  "for_lines body [] acc = acc"
| "for_lines body (line # rest) acc =
     for_lines body rest (case body line of None \<Rightarrow> acc | Some item \<Rightarrow> acc @ [item])"

text \<open>The body of the events loop of \<open>parseWikipediaContent\<close>
  (\<open>clean\<close> is \<open>cleanWikiText\<close>) and of \<open>parseTodayInfo\<close> (\<open>clean\<close> is
  \<open>cleanText\<close>). \<open>match && match[2]\<close> holds when the line matches and the second
  group is a non-empty string.\<close>

definition event_of_line :: "(jstring \<Rightarrow> jstring) \<Rightarrow> jstring \<Rightarrow> jstring option" where
  "event_of_line clean line =
     (case js_match re_event_line line of
        None \<Rightarrow> None
      | Some (i, m) \<Rightarrow>
          (case group m 2 of
             None \<Rightarrow> None
           | Some m2 \<Rightarrow>
               if m2 = [] then None
               else
                 let year = dollar 1 m;
                     event = clean m2
                 in if event \<noteq> [] \<and> \<not> str_includes event lit_Image
                       \<and> \<not> str_includes event lit_File
                       \<and> \<not> str_includes event lit_multiple_image
                       \<and> \<not> str_includes event lit_braces
                       \<and> length event > 10 \<and> length event < 150
                    then Some (year @ lit_colon_space @ event)
                    else None))"

text \<open>The body of the births loop (\<open>line_re\<close> is \<open>re_birth_line\<close>) and of the
  deaths loop (\<open>line_re\<close> is \<open>re_death_line\<close>).\<close>

definition person_of_line :: "re \<Rightarrow> (jstring \<Rightarrow> jstring) \<Rightarrow> jstring \<Rightarrow> jstring option" where
  "person_of_line line_re clean line =
     (case js_match line_re line of
        None \<Rightarrow> None
      | Some (i, m) \<Rightarrow>
          (case group m 2 of
             None \<Rightarrow> None
           | Some m2 \<Rightarrow>
               if m2 = [] then None
               else
                 let year = dollar 1 m;
                     person = clean m2;
                     occupation = (case group m 3 of
                                     None \<Rightarrow> []
                                   | Some m3 \<Rightarrow> if m3 = [] then [] else clean m3)
                 in if person \<noteq> [] \<and> length person > 1 \<and> length person < 50
                    then
                      let personInfo =
                            (if occupation \<noteq> []
                             then person @ lit_fw_lparen @ occupation @ lit_fw_rparen
                             else person)
                      in Some (year @ lit_colon_space @ personInfo)
                    else None))"

text \<open>\<open>parseWikipediaContent\<close>. Its \<open>try\<close> block only calls string and array
  methods on strings, which do not throw, so the \<open>catch\<close> branch is never taken.\<close>

record WikiInfo =
  w_historical :: "jstring list"
  w_births :: "jstring list"

definition parseWikipediaContent :: "jstring \<Rightarrow> WikiInfo" where
  "parseWikipediaContent content =
     (let historical =
            (case js_match re_events_section content of
               None \<Rightarrow> []
             | Some (i, eventsMatch) \<Rightarrow>
                 for_lines (event_of_line cleanWikiText)
                   (split_on 10 (dollar 1 eventsMatch)) []);
          births =
            (case js_match re_births_section content of
               None \<Rightarrow> []
             | Some (i, birthsMatch) \<Rightarrow>
                 for_lines (person_of_line re_birth_line cleanWikiText)
                   (split_on 10 (dollar 1 birthsMatch)) [])
      in \<lparr> w_historical = historical, w_births = births \<rparr>)"

text \<open>\<open>parseTodayInfo\<close>, the parser of the Wikipedia-only variant of the script,
  which also lists deaths.\<close>

record TodayInfo1 =
  date1 :: jstring
  events1 :: "jstring list"
  births1 :: "jstring list"
  deaths1 :: "jstring list"

definition parseTodayInfo :: "jstring \<Rightarrow> jstring \<Rightarrow> TodayInfo1" where
  "parseTodayInfo date content =
     (let events =
            (case js_match re_events_section content of
               None \<Rightarrow> []
             | Some (i, eventsMatch) \<Rightarrow>
                 for_lines (event_of_line cleanText)
                   (split_on 10 (dollar 1 eventsMatch)) []);
          births =
            (case js_match re_births_section content of
               None \<Rightarrow> []
             | Some (i, birthsMatch) \<Rightarrow>
                 for_lines (person_of_line re_birth_line cleanText)
                   (split_on 10 (dollar 1 birthsMatch)) []);
          deaths =
            (case js_match re_deaths_section content of
               None \<Rightarrow> []
             | Some (i, deathsMatch) \<Rightarrow>
                 let personSection = js_match re_person_section (dollar 1 deathsMatch);
                     deathLines =
                       split_on 10
                         (case personSection of
                            None \<Rightarrow> dollar 1 deathsMatch
                          | Some (j, pm) \<Rightarrow> dollar 1 pm)
                 in for_lines (person_of_line re_death_line cleanText) deathLines [])
      in \<lparr> date1 = date, events1 = events, births1 = births, deaths1 = deaths \<rparr>)"


section \<open>Sampling and ordering\<close>

subsection \<open>Numbers\<close>

text \<open>
  A JavaScript number is an IEEE 754 double. A finite double is \<open>m * 2^e\<close> for
  integers \<open>\<bar>m\<bar> < 2^53\<close> and \<open>- 1074 \<le> e \<le> 971\<close>, and every arithmetic result is
  the exact result rounded to the nearest double, to the one with the even \<open>m\<close> if
  two are equally near.

  \<open>bit_length n\<close> is the number of binary digits of a positive integer, and
  \<open>floor_log2 x\<close> is the integer \<open>k\<close> with \<open>2^k \<le> x < 2^(k + 1)\<close> for a positive
  rational. \<open>ulp_exp x\<close> is the exponent \<open>e\<close> of the doubles around \<open>x\<close>: 52 below
  that of \<open>x\<close>, and \<open>- 1074\<close> in the subnormal range. \<open>round_double x\<close> rounds \<open>x\<close>
  to the nearest multiple of \<open>2^e\<close>, ties to even, and \<open>to_number\<close> adds the
  overflow: a result of magnitude \<open>2^1024\<close> and more is an infinity.
\<close>

fun bit_length :: "int \<Rightarrow> int" where
  "bit_length n = (if n \<le> 0 then 0 else 1 + bit_length (n div 2))"

declare bit_length.simps [simp del]

definition floor_log2 :: "rat \<Rightarrow> int" where
  "floor_log2 x =
     (let (a, b) = quotient_of x; d = bit_length a - bit_length b
      in if 2 powi d \<le> x then d else d - 1)"

definition round_half_even :: "rat \<Rightarrow> int" where
  "round_half_even q =
     (let f = \<lfloor>q\<rfloor>; r = q - of_int f
      in if r < 1 / 2 then f else if 1 / 2 < r then f + 1 else if even f then f else f + 1)"

definition ulp_exp :: "rat \<Rightarrow> int" where
  "ulp_exp x = max (floor_log2 \<bar>x\<bar> - 52) (- 1074)"

definition round_double :: "rat \<Rightarrow> rat" where
  "round_double x =
     (if x = 0 then 0
      else sgn x * of_int (round_half_even (\<bar>x\<bar> / 2 powi ulp_exp x)) * 2 powi ulp_exp x)"

text \<open>The values of a number. The two zeros of IEEE 754 are one value here: the
  program subtracts years and tests the sign of the difference, and \<open>- 0\<close> and
  \<open>+ 0\<close> are equal and neither is below the other.\<close>

datatype number = Num rat | Infinity | NegInfinity | NaN

definition to_number :: "rat \<Rightarrow> number" where
  "to_number x =
     (let y = round_double x
      in if 1024 \<le> floor_log2 \<bar>y\<bar> then (if 0 < y then Infinity else NegInfinity) else Num y)"

text \<open>The unary minus and the subtraction of two numbers.\<close>

fun js_neg :: "number \<Rightarrow> number" where
  "js_neg (Num x) = Num (- x)"
| "js_neg Infinity = NegInfinity"
| "js_neg NegInfinity = Infinity"
| "js_neg NaN = NaN"

fun js_sub :: "number \<Rightarrow> number \<Rightarrow> number" where
  "js_sub (Num x) (Num y) = to_number (x - y)"
| "js_sub NaN b = NaN"
| "js_sub a NaN = NaN"
| "js_sub Infinity Infinity = NaN"
| "js_sub NegInfinity NegInfinity = NaN"
| "js_sub Infinity b = Infinity"
| "js_sub NegInfinity b = NegInfinity"
| "js_sub (Num x) Infinity = NegInfinity"
| "js_sub (Num x) NegInfinity = Infinity"

text \<open>\<open>v > 0\<close> for a number \<open>v\<close>; it is false of \<open>NaN\<close>.\<close>

fun positive :: "number \<Rightarrow> bool" where
  "positive (Num x) = (0 < x)"
| "positive Infinity = True"
| "positive NegInfinity = False"
| "positive NaN = False"

subsection \<open>sortByYear\<close>

text \<open>\<open>parseInt\<close> on a string of decimal digits, the strings that the two patterns
  of \<open>extractYear\<close> capture: the number for the integer that the digits denote.
  (ECMAScript lets an implementation read the digits after the twentieth as zeros; V8,
  the runtime of Apps Script, reads them all, and so does \<open>digits_value\<close>. Up to
  twenty significant digits, and so for every integer up to \<open>2^53\<close>, there is no such choice.)\<close>

definition digits_value :: "jstring \<Rightarrow> int" where
  "digits_value ds = foldl (\<lambda>a c. 10 * a + (c - 48)) 0 ds"

definition parseInt :: "jstring \<Rightarrow> number" where
  "parseInt ds = to_number (of_int (digits_value ds))"

text \<open>\<^verbatim>\<open>/^kigenzen(\d+)nen?:/\<close> and \<^verbatim>\<open>/^(\d+)nen?:/\<close>\<close>

definition re_bc_year :: re where
  "re_bc_year =
     Seq Bol (Seq (Lit (lit_kigen @ lit_zen)) (Seq (Group 1 (Plus (Cls [Dig])))
       (Seq (Opt (Lit lit_nen)) (Lit [58]))))"

definition re_ad_year :: re where
  "re_ad_year =
     Seq Bol (Seq (Group 1 (Plus (Cls [Dig]))) (Seq (Opt (Lit lit_nen)) (Lit [58])))"

definition extractYear :: "jstring \<Rightarrow> number" where
  "extractYear item =
     (case js_match re_bc_year item of
        Some (i, bcMatch) \<Rightarrow> js_neg (parseInt (dollar 1 bcMatch))
      | None \<Rightarrow>
          (case js_match re_ad_year item of
             Some (i, adMatch) \<Rightarrow> parseInt (dollar 1 adMatch)
           | None \<Rightarrow> Num 0))"

text \<open>\<open>Array.prototype.sort\<close> with a comparison function. The sort is stable
  (ECMAScript 2019), so for a consistent comparison its result is the one stable
  arrangement, which insertion from the right computes: an element goes before the
  first element of the sorted rest that it does not compare greater than. A comparison
  that yields \<open>NaN\<close> counts as \<open>+ 0\<close>.\<close>

fun insert_by :: "('a \<Rightarrow> 'a \<Rightarrow> number) \<Rightarrow> 'a \<Rightarrow> 'a list \<Rightarrow> 'a list" where
  "insert_by cmp x [] = [x]"
| "insert_by cmp x (y # ys) =
     (if positive (cmp x y) then y # insert_by cmp x ys else x # y # ys)"

definition array_sort :: "('a \<Rightarrow> 'a \<Rightarrow> number) \<Rightarrow> 'a list \<Rightarrow> 'a list" where
  "array_sort cmp xs = foldr (insert_by cmp) xs []"

definition sortByYear :: "jstring list \<Rightarrow> jstring list" where
  "sortByYear items = array_sort (\<lambda>a b. js_sub (extractYear a) (extractYear b)) items"

subsection \<open>getRandomItems\<close>

text \<open>Arrays are objects: \<open>getRandomItems\<close> may hand back the very array it was
  given, and \<open>sortByYear\<close> sorts its argument in place. Arrays therefore live in a
  store, from references to contents, with the next unused reference.\<close>

record 'a heap =
  cells :: "nat \<Rightarrow> 'a list"
  next_ref :: nat

definition alloc :: "'a heap \<Rightarrow> 'a list \<Rightarrow> 'a heap \<times> nat" where
  "alloc h xs =
     (h\<lparr> cells := (cells h)(next_ref h := xs), next_ref := Suc (next_ref h) \<rparr>, next_ref h)"

text \<open>\<open>Math.floor(Math.random() * (i + 1))\<close> for the outcome \<open>r\<close> of
  \<open>Math.random()\<close>, a double with \<open>0 \<le> r < 1\<close>. The index \<open>i\<close> of an array is
  below \<open>2^32\<close>, so \<open>i + 1\<close> is exact; the product is rounded to a double, which is
  below \<open>2^32\<close> too, and its floor is exact.\<close>

definition rand_index :: "rat \<Rightarrow> nat \<Rightarrow> nat" where
  "rand_index r i = nat \<lfloor>round_double (r * (of_nat i + 1))\<rfloor>"

text \<open>\<open>[shuffled[i], shuffled[j]] = [shuffled[j], shuffled[i]]\<close>\<close>

definition swap :: "'a list \<Rightarrow> nat \<Rightarrow> nat \<Rightarrow> 'a list" where
  "swap s i j = (s[i := s ! j])[j := s ! i]"

text \<open>The loop \<open>for (let i = shuffled.length - 1; i > 0; i--)\<close>. \<open>rnd\<close> is the
  sequence of the outcomes of \<open>Math.random()\<close> and \<open>k\<close> counts the calls made so
  far; the loop returns the array and the new count.\<close>

fun shuffle_loop :: "(nat \<Rightarrow> rat) \<Rightarrow> nat \<Rightarrow> nat \<Rightarrow> 'a list \<Rightarrow> 'a list \<times> nat" where
  "shuffle_loop rnd k 0 s = (s, k)"
| "shuffle_loop rnd k (Suc i) s =
     shuffle_loop rnd (Suc k) i (swap s (Suc i) (rand_index (rnd k) (Suc i)))"

text \<open>\<open>xs.slice(0, n)\<close> for a count \<open>n\<close> that is a natural number.\<close>

definition slice0 :: "nat \<Rightarrow> 'a list \<Rightarrow> 'a list" where
  "slice0 n xs = take n xs"

text \<open>\<open>getRandomItems\<close>; the target count \<open>cnt\<close> is a natural number (the
  callers pass 5). The result is the store, the reference returned and the number of
  calls of \<open>Math.random()\<close> made so far.\<close>

definition getRandomItems ::
  "(nat \<Rightarrow> rat) \<Rightarrow> nat \<Rightarrow> 'a heap \<Rightarrow> nat \<Rightarrow> nat \<Rightarrow> 'a heap \<times> nat \<times> nat" where
  "getRandomItems rnd k h array cnt =
     (if length (cells h array) \<le> cnt then (h, array, k)
      else
        let (h1, shuffled) = alloc h (cells h array);
            (s, k') = shuffle_loop rnd k (length (cells h1 shuffled) - 1) (cells h1 shuffled);
            h2 = h1\<lparr> cells := (cells h1)(shuffled := s) \<rparr>;
            (h3, result) = alloc h2 (slice0 cnt (cells h2 shuffled))
        in (h3, result, k'))"

text \<open>The index choices of a run of the loop over an array of \<open>n\<close> elements, first
  choice first.\<close>

definition choices :: "(nat \<Rightarrow> rat) \<Rightarrow> nat \<Rightarrow> nat \<Rightarrow> nat list" where
  "choices rnd k n = map (\<lambda>t. rand_index (rnd (k + t)) (n - 1 - t)) [0..<n - 1]"

section \<open>The HTML parser\<close>

text \<open>The anniversary heading (\<open>'kinenbi, gyouji, omatsuri'\<close>), the bullet
  \<open>U+25CF\<close>, and the two headings that end the section (\<open>'rekishijou no dekigoto'\<close>,
  \<open>'kyou no tanjoubi'\<close>).\<close>

definition lit_anniv_heading :: jstring where
  "lit_anniv_heading = [35352, 24565, 26085, 12539, 34892, 20107, 12539, 12362, 31085, 12426]"
definition lit_bullet :: jstring where "lit_bullet = [9679]"
definition lit_history_heading :: jstring where
  "lit_history_heading = [27508, 21490, 19978, 12398, 20986, 26469, 20107]"
definition lit_birthday_heading :: jstring where
  "lit_birthday_heading = [20170, 26085, 12398, 35477, 29983, 26085]"

text \<open>\<^verbatim>\<open>/<!--[\s\S]*?-->/g\<close>, \<^verbatim>\<open>/<!--[\s\S]*/g\<close>, \<^verbatim>\<open>/-->/g\<close>\<close>

definition re_comment :: re where
  "re_comment = Seq (Lit [60, 33, 45, 45]) (Seq (LazyStar (Cls [Ws, NonWs])) (Lit [45, 45, 62]))"
definition re_comment_open :: re where
  "re_comment_open = Seq (Lit [60, 33, 45, 45]) (Star (Cls [Ws, NonWs]))"
definition re_comment_close :: re where
  "re_comment_close = Lit [45, 45, 62]"

text \<open>The \<open>cleanText\<close> of \<open>parsePhpTodayInfo\<close>; the entities are
  \<open>&nbsp;\<close>, \<open>&amp;\<close>, \<open>&lt;\<close>, \<open>&gt;\<close> and \<open>&quot;\<close>.\<close>

definition cleanHtmlText :: "jstring \<Rightarrow> jstring" where
  "cleanHtmlText text =
     trim (replace_all (Lit [38, 113, 117, 111, 116, 59]) (\<lambda>m. [34])
       (replace_all (Lit [38, 103, 116, 59]) (\<lambda>m. [62])
         (replace_all (Lit [38, 108, 116, 59]) (\<lambda>m. [60])
           (replace_all (Lit [38, 97, 109, 112, 59]) (\<lambda>m. [38])
             (replace_all (Lit [38, 110, 98, 115, 112, 59]) (\<lambda>m. [32])
               (replace_all re_tag (\<lambda>m. [])
                 (replace_all re_comment_close (\<lambda>m. [])
                   (replace_all re_comment_open (\<lambda>m. [])
                     (replace_all re_comment (\<lambda>m. []) text)))))))))"

text \<open>\<^verbatim>\<open>/HEADING[\s\S]*?BULLET([\s\S]*?)(?=HISTORY|BIRTHDAY|$)/\<close>\<close>

definition eventsRegex :: re where
  "eventsRegex =
     Seq (Lit lit_anniv_heading) (Seq (LazyStar (Cls [Ws, NonWs])) (Seq (Lit lit_bullet)
       (Seq (Group 1 (LazyStar (Cls [Ws, NonWs])))
         (Ahead (Alt (Lit lit_history_heading) (Alt (Lit lit_birthday_heading) Eol))))))"

text \<open>\<^verbatim>\<open>/^BULLET\s*/\<close>\<close>

definition re_leading_bullet :: re where
  "re_leading_bullet = Seq Bol (Seq (Lit lit_bullet) (Star (Cls [Ws])))"

definition php_item :: "jstring \<Rightarrow> jstring option" where
  "php_item item0 =
     (let item = trim (replace_first re_leading_bullet (\<lambda>m. []) item0)
      in if length item > 0 \<and> length item < 100 then Some item else None)"

text \<open>\<open>parsePhpTodayInfo\<close>; the \<open>date\<close> parameter is not used by the source
  either. The \<open>try\<close> block cannot throw on a string.\<close>

definition parsePhpTodayInfo :: "jstring \<Rightarrow> jstring \<Rightarrow> jstring list" where
  "parsePhpTodayInfo date htmlContent =
     (case js_match eventsRegex htmlContent of
        None \<Rightarrow> []
      | Some (i, eventsMatch) \<Rightarrow>
          let eventsText = cleanHtmlText (dollar 1 eventsMatch);
              eventItems = filter (\<lambda>item. length (trim item) > 0) (split_on 44 eventsText)
          in for_lines php_item eventItems [])"

section \<open>The digest and its presentation\<close>

record TodayInfo =
  date :: jstring
  events :: "jstring list"
  historical :: "jstring list"
  births :: "jstring list"
  birthFlower :: "jstring option"

text \<open>The literals of \<open>formatSlackMessage\<close>: the title up to the date, the four
  section headers (each ends with a line feed), the bullet \<open>U+2022\<close> with its space, and
  the footer \<open>'\n_Powered by php.co.jp, Wikipedia & whatistoday.cyou_'\<close>.\<close>

definition lit_title :: jstring where
  "lit_title = [55357, 56517, 32, 42, 20170, 26085, 12399, 20309, 12398, 26085, 65311, 42, 32, 45, 32]"
definition lit_events_header :: jstring where
  "lit_events_header = [55356, 57225, 32, 42, 35352, 24565, 26085, 12539, 34892, 20107, 12539,
     12362, 31085, 12426, 42, 10]"
definition lit_historical_header :: jstring where
  "lit_historical_header = [55356, 57307, 65039, 32, 42, 27508, 21490, 19978, 12398, 20986,
     26469, 20107, 42, 10]"
definition lit_births_header :: jstring where
  "lit_births_header = [55356, 57218, 32, 42, 20170, 26085, 12398, 35477, 29983, 26085, 42, 10]"
definition lit_flower_header :: jstring where
  "lit_flower_header = [55356, 57144, 32, 42, 35477, 29983, 33457, 42, 10]"
definition lit_dot :: jstring where "lit_dot = [8226, 32]"
definition lit_footer :: jstring where
  "lit_footer = [10, 95, 80, 111, 119, 101, 114, 101, 100, 32, 98, 121, 32, 112, 104, 112, 46,
     99, 111, 46, 106, 112, 44, 32, 87, 105, 107, 105, 112, 101, 100, 105, 97, 32, 38, 32, 119,
     104, 97, 116, 105, 115, 116, 111, 100, 97, 121, 46, 99, 121, 111, 117, 95]"

text \<open>\<open>for (const x of xs) { message += `BULLET ${x}\n`; }\<close>\<close>

fun add_lines :: "jstring \<Rightarrow> jstring list \<Rightarrow> jstring" where
  "add_lines message [] = message"
| "add_lines message (x # xs) = add_lines (message @ lit_dot @ x @ [10]) xs"

definition formatSlackMessage :: "TodayInfo \<Rightarrow> jstring" where
  "formatSlackMessage info =
     (let message = lit_title @ date info @ [10, 10];
          message =
            (if length (events info) > 0
             then add_lines (message @ lit_events_header) (slice0 5 (events info)) @ [10]
             else message);
          message =
            (if length (historical info) > 0
             then add_lines (message @ lit_historical_header) (slice0 5 (historical info)) @ [10]
             else message);
          message =
            (if length (births info) > 0
             then add_lines (message @ lit_births_header) (slice0 5 (births info)) @ [10]
             else message);
          message =
            (case birthFlower info of
               None \<Rightarrow> message
             | Some flower \<Rightarrow>
                 if flower = [] then message
                 else message @ lit_flower_header @ lit_dot @ flower @ [10, 10])
      in message @ lit_footer)"

text \<open>The presenter as the specification words it: a title, then one section per
  non-empty category in the order anniversaries, historical events, births, flower, each
  list capped at five entries, then the footer.\<close>

definition spec_section :: "jstring \<Rightarrow> jstring list \<Rightarrow> jstring" where
  "spec_section header entries =
     (if entries = [] then []
      else header @ concat (map (\<lambda>e. lit_dot @ e @ [10]) (take 5 entries)) @ [10])"

definition spec_flower_section :: "jstring option \<Rightarrow> jstring" where
  "spec_flower_section f =
     (case f of
        None \<Rightarrow> []
      | Some name \<Rightarrow> if name = [] then [] else lit_flower_header @ lit_dot @ name @ [10] @ [10])"

definition spec_presenter :: "TodayInfo \<Rightarrow> jstring" where
  "spec_presenter d =
     lit_title @ date d @ [10, 10]
       @ spec_section lit_events_header (events d)
       @ spec_section lit_historical_header (historical d)
       @ spec_section lit_births_header (births d)
       @ spec_flower_section (birthFlower d)
       @ lit_footer"

section \<open>The run\<close>

text \<open>A thrown value, by the text that \<open>`${error}`\<close> renders it to.\<close>

datatype exn = Exn jstring

text \<open>The Wikipedia response after \<open>JSON.parse\<close>: \<open>data.query.pages\<close> as its
  keys with their pages, in key order. A page may lack \<open>revisions\<close>; a revision
  carries its content under \<open>slots.main['*']\<close> or, in the older format, under
  \<open>'*'\<close>.\<close>

record Revision =
  slots_main :: "jstring option"
  star :: "jstring option"

record WikiPage =
  revisions :: "Revision list option"

text \<open>What the run meets outside the script: the date, the outcome of each
  \<open>UrlFetchApp.fetch\<close> with the \<open>JSON.parse\<close> behind it (\<open>Inl\<close> when one of
  them throws), the script property \<open>SLACK_WEBHOOK_URL\<close>, the answer of the webhook
  to a message (response code and content text, or a thrown error), and the outcomes of
  \<open>Math.random()\<close>.\<close>

record world =
  today_month :: nat
  today_day :: nat
  php_fetch :: "exn + jstring"
  wiki_fetch :: "exn + (jstring \<times> WikiPage) list"
  flower_fetch :: "exn + jstring option"
  webhook_url :: "jstring option"
  slack_answer :: "jstring \<Rightarrow> exn + nat \<times> jstring"
  random :: "nat \<Rightarrow> rat"

text \<open>\<open>String(n)\<close> for a natural number.\<close>

function decimal :: "nat \<Rightarrow> jstring" where
  "decimal n = (if n < 10 then [48 + int n] else decimal (n div 10) @ [48 + int (n mod 10)])"
  by pat_completeness auto
termination
  by (relation "measure (\<lambda>n. n)") auto

text \<open>\<open>getTodayDisplayString\<close>: month, \<open>U+6708\<close>, day, \<open>U+65E5\<close>.\<close>

definition getTodayDisplayString :: "world \<Rightarrow> jstring" where
  "getTodayDisplayString w = decimal (today_month w) @ [26376] @ decimal (today_day w) @ [26085]"

text \<open>\<open>fetchBirthFlower\<close>: \<open>null\<close> when the fetch or the parse throws, and when
  the answer has no truthy \<open>flower\<close>.\<close>

definition fetchBirthFlower :: "world \<Rightarrow> jstring option" where
  "fetchBirthFlower w =
     (case flower_fetch w of
        Inl error \<Rightarrow> None
      | Inr None \<Rightarrow> None
      | Inr (Some flower) \<Rightarrow> if flower = [] then None else Some flower)"

definition no_wiki :: WikiInfo where
  "no_wiki = \<lparr> w_historical = [], w_births = [] \<rparr>"

text \<open>\<open>fetchWikipediaInfo\<close>. With no page key, \<open>pages[pageKey].revisions\<close>
  throws, and with an empty \<open>revisions\<close> array \<open>revision.slots\<close> throws; the
  \<open>catch\<close> turns both into the empty result. \<open>'-1'\<close> is \<open>[45, 49]\<close>.\<close>

definition fetchWikipediaInfo :: "world \<Rightarrow> WikiInfo" where
  "fetchWikipediaInfo w =
     (case wiki_fetch w of
        Inl error \<Rightarrow> no_wiki
      | Inr [] \<Rightarrow> no_wiki
      | Inr ((pageKey, page) # others) \<Rightarrow>
          if pageKey = [45, 49] \<or> revisions page = None then no_wiki
          else
            (case the (revisions page) of
               [] \<Rightarrow> no_wiki
             | revision # later \<Rightarrow>
                 (case slots_main revision of
                    Some content \<Rightarrow> parseWikipediaContent content
                  | None \<Rightarrow>
                      (case star revision of
                         None \<Rightarrow> no_wiki
                       | Some content \<Rightarrow>
                           if content = [] then no_wiki
                           else parseWikipediaContent content))))"

text \<open>\<open>fetchTodayInfo\<close>: \<open>null\<close> when the fetch of the HTML page throws. The
  two arrays of the Wikipedia result are objects of the store; \<open>getRandomItems\<close> hands
  back a reference and \<open>sortByYear\<close> sorts the array behind it in place.\<close>

definition fetchTodayInfo :: "world \<Rightarrow> TodayInfo option" where
  "fetchTodayInfo w =
     (let displayString = getTodayDisplayString w
      in case php_fetch w of
           Inl error \<Rightarrow> None
         | Inr htmlContent \<Rightarrow>
             let phpInfo = parsePhpTodayInfo displayString htmlContent;
                 wikiInfo = fetchWikipediaInfo w;
                 (h1, wiki_historical) =
                    alloc \<lparr> cells = (\<lambda>r. []), next_ref = 0 \<rparr> (w_historical wikiInfo);
                 (h2, wiki_births) = alloc h1 (w_births wikiInfo);
                 flower = fetchBirthFlower w;
                 (h3, randomHistorical, k1) = getRandomItems (random w) 0 h2 wiki_historical 5;
                 (h4, randomBirths, k2) = getRandomItems (random w) k1 h3 wiki_births 5;
                 h5 = h4\<lparr> cells := (cells h4)
                         (randomHistorical := sortByYear (cells h4 randomHistorical)) \<rparr>;
                 h6 = h5\<lparr> cells := (cells h5)
                         (randomBirths := sortByYear (cells h5 randomBirths)) \<rparr>
             in Some \<lparr> date = displayString,
                       events = phpInfo,
                       historical = cells h6 randomHistorical,
                       births = cells h6 randomBirths,
                       birthFlower = flower \<rparr>)"

text \<open>\<open>postToSlack\<close>: the outcome and the messages handed to the webhook. Without
  a webhook URL it throws before any fetch; otherwise the message is posted, and a
  thrown error or a response code other than 200 is thrown on to the caller.\<close>

definition lit_not_configured :: jstring where
  "lit_not_configured = [69, 114, 114, 111, 114, 58, 32, 83, 76, 65, 67, 75, 95, 87, 69, 66, 72,
     79, 79, 75, 95, 85, 82, 76, 32, 105, 115, 32, 110, 111, 116, 32, 99, 111, 110, 102, 105,
     103, 117, 114, 101, 100]"
definition lit_slack_api_error :: jstring where
  "lit_slack_api_error = [69, 114, 114, 111, 114, 58, 32, 83, 108, 97, 99, 107, 32, 65, 80, 73,
     32, 101, 114, 114, 111, 114, 58, 32]"

definition postToSlack :: "world \<Rightarrow> jstring \<Rightarrow> (exn + unit) \<times> jstring list" where
  "postToSlack w message =
     (case webhook_url w of
        None \<Rightarrow> (Inl (Exn lit_not_configured), [])
      | Some webhookUrl \<Rightarrow>
          if webhookUrl = [] then (Inl (Exn lit_not_configured), [])
          else
            (case slack_answer w message of
               Inl error \<Rightarrow> (Inl error, [message])
             | Inr (code, content) \<Rightarrow>
                 if code \<noteq> 200 then (Inl (Exn (lit_slack_api_error @ content)), [message])
                 else (Inr (), [message])))"

text \<open>The error notice of \<open>main\<close>: a fixed Japanese sentence, then the error.\<close>

definition lit_error_notice :: jstring where
  "lit_error_notice = [10071, 32, 20170, 26085, 12399, 20309, 12398, 26085, 66, 111, 116, 12391,
     12456, 12521, 12540, 12364, 30330, 29983, 12375, 12414, 12375, 12383, 58, 32]"

fun render :: "exn \<Rightarrow> jstring" where
  "render (Exn text) = text"

text \<open>\<open>main\<close>: the messages handed to the webhook during the run, in order.\<close>

definition main :: "world \<Rightarrow> jstring list" where
  "main w =
     (case fetchTodayInfo w of
        None \<Rightarrow> []
      | Some todayInfo \<Rightarrow>
          let message = formatSlackMessage todayInfo
          in case postToSlack w message of
               (Inr u, posts) \<Rightarrow> posts
             | (Inl error, posts) \<Rightarrow>
                 posts @ snd (postToSlack w (lit_error_notice @ render error)))"

section \<open>Notions used in the statements and proofs\<close>

text \<open>\<open>tag_here s\<close>: the string starts with a tag as \<^verbatim>\<open>/<[^>]+>/\<close> reads it, that
  is with \<open><\<close>, at least one code unit other than \<open>>\<close>, and a \<open>>\<close> somewhere
  behind. \<open>tagfree s\<close>: no position of the string starts with a tag.\<close>

fun tag_here :: "jstring \<Rightarrow> bool" where
  "tag_here (x # y # ys) = (x = 60 \<and> y \<noteq> 62 \<and> 62 \<in> set ys)"
| "tag_here s = False"


text \<open>A run in which the fetch of the HTML page throws while the webhook is configured
  and would answer 200.\<close>

definition world_php_down :: world where
  "world_php_down =
     \<lparr> today_month = 8, today_day = 10,
       php_fetch = Inl (Exn [98, 111, 111, 109]),
       wiki_fetch = Inr [],
       flower_fetch = Inr None,
       webhook_url = Some [104, 116, 116, 112, 115, 58, 47, 47, 104, 111, 111, 107, 115],
       slack_answer = (\<lambda>message. Inr (200, [])),
       random = (\<lambda>k. 0) \<rparr>"

text \<open>\<open>digits ds\<close>: a non-empty string of decimal digits.\<close>

definition digits :: "jstring \<Rightarrow> bool" where
  "digits ds = (ds \<noteq> [] \<and> list_all is_digit ds)"

text \<open>The capture groups that a regular expression can set.\<close>

fun groups_of :: "re \<Rightarrow> nat set" where
  "groups_of (Group g r) = insert g (groups_of r)"
| "groups_of (Seq a b) = groups_of a \<union> groups_of b"
| "groups_of (Alt a b) = groups_of a \<union> groups_of b"
| "groups_of (Opt a) = groups_of a"
| "groups_of (Ahead a) = groups_of a"
| "groups_of r = {}"

text \<open>\<open>is_double x\<close>: the rational \<open>x\<close> is the value of a double, that is, rounding
  leaves it as it is (the largest exponent apart, which \<open>to_number\<close> checks).\<close>

definition is_double :: "rat \<Rightarrow> bool" where
  "is_double x = (round_double x = x)"

text \<open>The order of the numbers other than \<open>NaN\<close>, and the numbers that are integers
  or infinite.\<close>

fun number_le :: "number \<Rightarrow> number \<Rightarrow> bool" where
  "number_le NaN b = False"
| "number_le a NaN = False"
| "number_le NegInfinity b = True"
| "number_le a Infinity = True"
| "number_le (Num x) (Num y) = (x \<le> y)"
| "number_le Infinity b = False"
| "number_le a NegInfinity = False"

fun integral :: "number \<Rightarrow> bool" where
  "integral (Num x) = (of_int \<lfloor>x\<rfloor> = x)"
| "integral Infinity = True"
| "integral NegInfinity = True"
| "integral NaN = False"

text \<open>\<open>valid_random rnd\<close>: every outcome of \<open>Math.random()\<close> is a double from 0
  (inclusive) to 1 (exclusive).\<close>

definition valid_random :: "(nat \<Rightarrow> rat) \<Rightarrow> bool" where
  "valid_random rnd = (\<forall>k. is_double (rnd k) \<and> 0 \<le> rnd k \<and> rnd k < 1)"

text \<open>The shuffle loop in terms of the indices it draws: \<open>fy js i s\<close> runs the loop
  from index \<open>i\<close> down to 1 on \<open>s\<close>, swapping with the indices \<open>js\<close> in turn.
  \<open>valid_choices js i\<close>: one index for each round, none beyond the round's own
  index.\<close>

fun fy :: "nat list \<Rightarrow> nat \<Rightarrow> 'a list \<Rightarrow> 'a list" where
  "fy js 0 s = s"
| "fy [] (Suc i) s = s"
| "fy (j # js) (Suc i) s = fy js i (swap s (Suc i) j)"

definition valid_choices :: "nat list \<Rightarrow> nat \<Rightarrow> bool" where
  "valid_choices js i = (length js = i \<and> (\<forall>t < i. js ! t \<le> i - t))"

text \<open>What \<open>getRandomItems\<close> returns, as a value: the contents of the returned array
  and the number of calls of \<open>Math.random()\<close> made so far.\<close>

definition random_items :: "(nat \<Rightarrow> rat) \<Rightarrow> nat \<Rightarrow> 'a list \<Rightarrow> nat \<Rightarrow> 'a list \<times> nat" where
  "random_items rnd k xs cnt =
     (if length xs \<le> cnt then (xs, k)
      else (take cnt (fst (shuffle_loop rnd k (length xs - 1) xs)), k + (length xs - 1)))"

text \<open>Two stores, each with one array at reference 0: one of ten elements, one of
  three.\<close>

definition heap10 :: "int heap" where
  "heap10 = \<lparr> cells = (\<lambda>r. if r = 0 then [1, 2, 3, 4, 5, 6, 7, 8, 9, 10] else []), next_ref = 1 \<rparr>"

definition heap3 :: "int heap" where
  "heap3 = \<lparr> cells = (\<lambda>r. if r = 0 then [1, 2, 3] else []), next_ref = 1 \<rparr>"

text \<open>A run in which the page of anniversaries
  (\<^verbatim>\<open><h2>HEADING</h2><p>*Hat Day,*Heart Day</p>HISTORY\<close>) and the Wikipedia page (one
  event, one birth) arrive, and the flower lookup throws.\<close>

definition world_flower_down :: world where
  "world_flower_down =
     \<lparr> today_month = 8, today_day = 10,
       php_fetch = Inr [60, 104, 50, 62, 35352, 24565, 26085, 12539, 34892, 20107, 12539, 12362,
         31085, 12426, 60, 47, 104, 50, 62, 60, 112, 62, 9679, 72, 97, 116, 32, 68, 97, 121, 44,
         9679, 72, 101, 97, 114, 116, 32, 68, 97, 121, 60, 47, 112, 62, 27508, 21490, 19978,
         12398, 20986, 26469, 20107],
       wiki_fetch = Inr [([49, 50, 51, 52, 53],
         \<lparr> revisions = Some [\<lparr> slots_main = Some [61, 61, 32, 12391, 12365, 12372, 12392, 32,
           61, 61, 10, 42, 32, 49, 57, 57, 48, 24180, 32, 45, 32, 83, 111, 109, 101, 116, 104,
           105, 110, 103, 32, 104, 97, 112, 112, 101, 110, 101, 100, 32, 104, 101, 114, 101, 32,
           116, 111, 100, 97, 121, 10, 61, 61, 32, 35477, 29983, 26085, 32, 61, 61, 10, 42, 32,
           49, 57, 57, 48, 24180, 32, 45, 32, 23665, 30000, 22826, 37070, 12289, 20467, 20778],
           star = None \<rparr>] \<rparr>)],
       flower_fetch = Inl (Exn [116, 105, 109, 101, 111, 117, 116]),
       webhook_url = Some [104, 116, 116, 112, 115, 58, 47, 47, 104, 111, 111, 107, 115],
       slack_answer = (\<lambda>message. Inr (200, [])),
       random = (\<lambda>k. 0) \<rparr>"

section \<open>Properties of the matcher\<close>

lemma advance_simps [simp]:
  "ms_pos (advance k s) = ms_pos s + k"
  "ms_rest (advance k s) = drop k (ms_rest s)"
  "ms_caps (advance k s) = ms_caps s"
  by (cases s; simp)+

lemma capture_simps [simp]:
  "ms_pos (capture g s m) = ms_pos m"
  "ms_rest (capture g s m) = ms_rest m"
  "ms_caps (capture g s m) = (g, take (ms_pos m - ms_pos s) (ms_rest s)) # ms_caps m"
  by (cases s; cases m; simp)+

lemma run_len_le: "run_len cl r \<le> length r"
  by (simp add: run_len_def length_takeWhile_le)



lemma concat_map_all_Nil: "(\<And>x. x \<in> set xs \<Longrightarrow> f x = []) \<Longrightarrow> concat (map f xs) = []"
  by (induction xs) auto

lemma upt_rev_top: "1 \<le> n \<Longrightarrow> rev [1..<Suc n] = n # rev [1..<n]"
  by simp

lemma run_len_nth: "k < run_len cl r \<Longrightarrow> in_cls cl (r ! k)"
  unfolding run_len_def by (metis nth_mem set_takeWhileD takeWhile_nth)



lemma atom_cons:
  "rmatch (Atom cl) (MS p (x # xs) c) = (if in_cls cl x then [MS (p + 1) xs c] else [])"
  by simp

lemma atom_nil: "rmatch (Atom cl) (MS p [] c) = []"
  by simp


lemma run_len_Cons: "run_len cl (x # xs) = (if in_cls cl x then Suc (run_len cl xs) else 0)"
  by (simp add: run_len_def)


lemma seq_unfold: "rmatch (Seq a b) s = concat (map (rmatch b) (rmatch a s))"
  by simp


lemma lit_match:
  "rmatch (Seq (Lit l) r) (MS p (l @ t) c) = rmatch r (MS (p + length l) t c)"
  by simp

section \<open>The text cleaner leaves no tag\<close>

lemma match_at_mem: "match_at r p s = Some m \<Longrightarrow> m \<in> set (rmatch r (MS p s []))"
  by (auto simp: match_at_def split: list.splits)



lemma tag_here_gt [simp]: "\<not> tag_here (x # 62 # ys)"
  by simp

















section \<open>The deaths section and its persons sub-section\<close>

text \<open>
  Claim C4 says that, when the deaths section holds a top-level entry and a persons
  sub-section with an entry of its own, only the entry of the sub-section is extracted.
  \<open>parseTodayInfo\<close> tries that (it looks for the persons heading inside the deaths
  section), but the section body ends where \<^verbatim>\<open>(?=== [^=]|$)\<close> first holds, and it
  holds at the second \<open>=\<close> of the sub-heading \<open>'=== jinbutsu ==='\<close>. The body
  therefore stops one code unit into the sub-heading, the persons heading is never
  found in it, and the top-level entry is extracted instead. Here the page is
  \<^verbatim>\<open>== kijitsu ==\n* 1990nen - Walkman\n=== jinbutsu ===\n* 1991nen - NAME\<close>
  and the deaths list is \<open>['1990nen: Walkman']\<close>.
\<close>

theorem deaths_persons_subsection_missed:
  "deaths1 (parseTodayInfo []
      [61, 61, 32, 24524, 26085, 32, 61, 61, 10,
       42, 32, 49, 57, 57, 48, 24180, 32, 45, 32, 87, 97, 108, 107, 109, 97, 110, 10,
       61, 61, 61, 32, 20154, 29289, 32, 61, 61, 61, 10,
       42, 32, 49, 57, 57, 49, 24180, 32, 45, 32, 23665, 30000, 22826, 37070])
   = [[49, 57, 57, 48, 24180, 58, 32, 87, 97, 108, 107, 109, 97, 110]]"
  by code_simp

subsection \<open>The persons branch is never taken\<close>

lemma concat_map_first:
  "concat (map f xs) = m # ms \<Longrightarrow>
   \<exists>ys x zs. xs = ys @ x # zs \<and> (\<forall>y \<in> set ys. f y = []) \<and> (\<exists>ms'. f x = m # ms')"
proof (induction xs)
  case Nil
  then show ?case by simp
next
  case (Cons a xs)
  show ?case
  proof (cases "f a")
    case Nil
    with Cons.prems have "concat (map f xs) = m # ms" by simp
    from Cons.IH[OF this] obtain ys x zs where
      "xs = ys @ x # zs" "\<forall>y \<in> set ys. f y = []" "\<exists>ms'. f x = m # ms'" by blast
    with Nil have "a # xs = (a # ys) @ x # zs \<and> (\<forall>y \<in> set (a # ys). f y = []) \<and> (\<exists>ms'. f x = m # ms')"
      by simp
    then show ?thesis by blast
  next
    case (Cons b bs)
    with Cons.prems have "f a = m # bs" by simp
    then have "a # xs = [] @ a # xs \<and> (\<forall>y \<in> set []. f y = []) \<and> (\<exists>ms'. f a = m # ms')"
      by simp
    then show ?thesis by blast
  qed
qed

lemma upt_split_first:
  assumes "[0..<n] = ys @ x # zs"
  shows "x = length ys \<and> ys = [0..<x] \<and> x < n"
proof -
  have l: "length ys < n" using arg_cong[OF assms, of length] by simp
  have x: "x = [0..<n] ! length ys" unfolding assms by simp
  with l have xl: "x = length ys" by simp
  have "ys = take (length ys) [0..<n]" unfolding assms by simp
  also have "\<dots> = [0..<length ys]" using l by (simp add: take_upt)
  finally show ?thesis using xl l by simp
qed

text \<open>The lookahead that ends a section body.\<close>

lemma section_end_holds:
  assumes "x \<noteq> 61"
  shows "rmatch (Ahead (Alt (Seq (Lit [61, 61, 32]) (Atom (NCls [Ch 61]))) Eol))
           (MS p (61 # 61 # 32 # x # t) c) \<noteq> []"
  using assms by simp

lemma list_first_four:
  assumes "3 < length r"
  shows "r = r ! 0 # r ! 1 # r ! 2 # r ! 3 # drop 4 r"
proof -
  from assms obtain a r1 where r: "r = a # r1" by (cases r) auto
  with assms obtain b r2 where r1: "r1 = b # r2" by (cases r1) auto
  with assms r obtain c r3 where r2: "r2 = c # r3" by (cases r2) auto
  with assms r r1 obtain d r4 where r3: "r3 = d # r4" by (cases r3) auto
  show ?thesis unfolding r r1 r2 r3 by simp
qed

lemma run_len_any: "run_len (Cls [Ws, NonWs]) r = length r"
proof -
  have "takeWhile (in_cls (Cls [Ws, NonWs])) r = r"
    by (simp add: takeWhile_eq_all_conv)
  then show ?thesis by (simp only: run_len_def)
qed

lemma section_body_first:
  assumes "rmatch re_section_body (MS p t c) = m # ms"
  shows "\<exists>k \<le> length t. group m 1 = Some (take k t)
           \<and> (\<forall>k' < k. rmatch (Ahead (Alt (Seq (Lit [61, 61, 32]) (Atom (NCls [Ch 61]))) Eol))
                            (MS (p + k') (drop k' t) ((1, take k' t) # c)) = [])"
proof -
  let ?A = "Ahead (Alt (Seq (Lit [61, 61, 32]) (Atom (NCls [Ch 61]))) Eol)"
  let ?s = "MS p t c"
  let ?f = "\<lambda>k. rmatch ?A (MS (p + k) (drop k t) ((1, take k t) # c))"
  have cap: "capture 1 ?s (advance k ?s) = MS (p + k) (drop k t) ((1, take k t) # c)" for k
    by simp
  have "rmatch re_section_body ?s
          = concat (map (\<lambda>k. rmatch ?A (capture 1 ?s (advance k ?s)))
              [0..<Suc (run_len (Cls [Ws, NonWs]) (ms_rest ?s))])"
    by (simp only: re_section_body_def rmatch.simps(3,8,10) map_map comp_def)
  then have "rmatch re_section_body ?s = concat (map ?f [0..<Suc (length t)])"
    by (simp only: cap run_len_any ms_rest.simps)
  with assms have "concat (map ?f [0..<Suc (length t)]) = m # ms" by simp
  from concat_map_first[OF this]
  have "\<exists>ys k zs. [0..<Suc (length t)] = ys @ k # zs \<and> (\<forall>y \<in> set ys. ?f y = [])
          \<and> (\<exists>ms'. ?f k = m # ms')" .
  then show ?thesis
  proof (elim exE conjE)
    fix ys k zs ms'
    assume sp: "[0..<Suc (length t)] = ys @ k # zs" and none: "\<forall>y \<in> set ys. ?f y = []"
      and fk: "?f k = m # ms'"
    note sf = upt_split_first[OF sp]
    have k: "ys = [0..<k]" "k < Suc (length t)"
      by (rule sf[THEN conjunct2, THEN conjunct1], rule sf[THEN conjunct2, THEN conjunct2])
    have "?f k = [] \<or> ?f k = [MS (p + k) (drop k t) ((1, take k t) # c)]"
      by (simp split: list.splits)
    with fk have "m = MS (p + k) (drop k t) ((1, take k t) # c)" by auto
    then have g: "group m 1 = Some (take k t)" by (simp add: group_def)
    from none k(1) have n: "\<forall>k' < k. ?f k' = []" by simp
    from k(2) have "k \<le> length t" by simp
    with g n show ?thesis by (intro exI[of _ k] conjI)
  qed
qed

lemma search_from_at:
  "search_from r p s = Some (i, m) \<Longrightarrow> \<exists>q \<le> length s. match_at r (p + q) (drop q s) = Some m"
proof (induction s arbitrary: p)
  case Nil
  then show ?case by (auto split: option.splits)
next
  case (Cons x xs)
  show ?case
  proof (cases "match_at r p (x # xs)")
    case None
    with Cons.prems have "search_from r (Suc p) xs = Some (i, m)" by simp
    from Cons.IH[OF this] obtain q where "q \<le> length xs" "match_at r (Suc p + q) (drop q xs) = Some m"
      by blast
    then have "Suc q \<le> length (x # xs) \<and> match_at r (p + Suc q) (drop (Suc q) (x # xs)) = Some m"
      by simp
    then show ?thesis by blast
  next
    case (Some m')
    with Cons.prems have "match_at r (p + 0) (drop 0 (x # xs)) = Some m" by simp
    then show ?thesis by blast
  qed
qed

lemma lit_seq_nonempty:
  "rmatch (Seq (Lit l) r) (MS p t c) \<noteq> [] \<Longrightarrow> take (length l) t = l"
  by (auto split: if_splits)

text \<open>
  For every page, the lookup of the persons sub-section in \<open>parseTodayInfo\<close> finds
  nothing: whatever the deaths section pattern captured, the persons heading does not
  occur in it, so \<open>personSection\<close> is \<open>null\<close> and the narrowing to the persons
  sub-section never happens.
\<close>

theorem person_section_never_found:
  assumes "js_match re_deaths_section content = Some (i, deathsMatch)"
  shows "js_match re_person_section (dollar 1 deathsMatch) = None"
proof (rule ccontr)
  assume "js_match re_person_section (dollar 1 deathsMatch) \<noteq> None"
  then obtain j pm where pm: "js_match re_person_section (dollar 1 deathsMatch) = Some (j, pm)"
    by auto
  from assms[unfolded js_match_def] search_from_at obtain q0 where
    "match_at re_deaths_section (0 + q0) (drop q0 content) = Some deathsMatch" by blast
  then obtain ms where d: "rmatch re_deaths_section (MS q0 (drop q0 content) []) = deathsMatch # ms"
    by (auto simp: match_at_def split: list.splits)
  define c0 where "c0 = drop q0 content"
  define t where "t = drop (length lit_deaths_heading) c0"
  have "rmatch re_deaths_section (MS q0 c0 []) \<noteq> []" using d by (simp add: c0_def)
  then have hd0: "take (length lit_deaths_heading) c0 = lit_deaths_heading"
    unfolding re_deaths_section_def by (rule lit_seq_nonempty)
  have c0: "c0 = lit_deaths_heading @ t"
    unfolding t_def by (metis hd0 append_take_drop_id)
  have "rmatch re_deaths_section (MS q0 c0 [])
          = rmatch re_section_body (MS (q0 + length lit_deaths_heading) t [])"
    unfolding re_deaths_section_def c0 by (rule lit_match)
  with d have "rmatch re_section_body (MS (q0 + length lit_deaths_heading) t []) = deathsMatch # ms"
    by (simp add: c0_def)
  from section_body_first[OF this] obtain k where k: "k \<le> length t"
    and g: "group deathsMatch 1 = Some (take k t)"
    and none: "\<forall>k' < k. rmatch (Ahead (Alt (Seq (Lit [61, 61, 32]) (Atom (NCls [Ch 61]))) Eol))
                 (MS (q0 + length lit_deaths_heading + k') (drop k' t) [(1, take k' t)]) = []"
    by blast
  define u where "u = take k t"
  have lu: "length u = k" using k by (simp add: u_def)
  have u: "dollar 1 deathsMatch = u" using g by (simp add: dollar_def u_def)
  from pm[unfolded js_match_def u] search_from_at obtain q where
    q: "q \<le> length u" "match_at re_person_section (0 + q) (drop q u) = Some pm" by blast
  then have "rmatch re_person_section (MS q (drop q u) []) \<noteq> []"
    by (auto simp: match_at_def split: list.splits)
  then have ph: "take (length lit_persons_heading) (drop q u) = lit_persons_heading"
    unfolding re_person_section_def by (rule lit_seq_nonempty)
  have lp: "length lit_persons_heading = 10" by (simp add: lit_persons_heading_def)
  have lk: "q + 10 \<le> k"
  proof -
    have "length (take (length lit_persons_heading) (drop q u)) = length lit_persons_heading"
      by (simp only: ph)
    then have "min (length u - q) (length lit_persons_heading) = length lit_persons_heading"
      by (simp only: length_take length_drop)
    with lp lu show ?thesis by arith
  qed
  have nth_t: "t ! (q + n) = lit_persons_heading ! n" if n: "n < 10" for n
  proof -
    have "lit_persons_heading ! n = take (length lit_persons_heading) (drop q u) ! n"
      by (simp only: ph)
    also have "\<dots> = drop q u ! n" using n lp by simp
    also have "\<dots> = u ! (q + n)" using n lk lu by simp
    also have "\<dots> = t ! (q + n)" unfolding u_def using n lk by simp
    finally show ?thesis by simp
  qed
  define r where "r = drop (Suc q) t"
  have lr: "3 < length r" unfolding r_def using lk k by simp
  have rn: "r ! n = t ! (q + Suc n)" if "n < 4" for n
    unfolding r_def using that lk k by simp
  have r0: "r ! 0 = 61" "r ! 1 = 61" "r ! 2 = 32" "r ! 3 = 20154"
    using rn[of 0] rn[of 1] rn[of 2] rn[of 3] nth_t[of 1] nth_t[of 2] nth_t[of 3] nth_t[of 4]
    by (simp_all add: lit_persons_heading_def)
  have req: "r = 61 # 61 # 32 # 20154 # drop 4 r"
    using list_first_four[OF lr] unfolding r0 .
  have "(20154 :: int) \<noteq> 61" by simp
  from section_end_holds[OF this]
  have "rmatch (Ahead (Alt (Seq (Lit [61, 61, 32]) (Atom (NCls [Ch 61]))) Eol))
          (MS (q0 + length lit_deaths_heading + Suc q) (61 # 61 # 32 # 20154 # drop 4 r)
             [(1, take (Suc q) t)]) \<noteq> []" .
  then have "rmatch (Ahead (Alt (Seq (Lit [61, 61, 32]) (Atom (NCls [Ch 61]))) Eol))
          (MS (q0 + length lit_deaths_heading + Suc q) (drop (Suc q) t) [(1, take (Suc q) t)]) \<noteq> []"
    using req unfolding r_def by simp
  moreover have "Suc q < k" using lk by simp
  ultimately show False using none by blast
qed

text \<open>The theorem at the page of the section above: the captured body is
  \<^verbatim>\<open>\n* 1990nen - Walkman\n=\<close>, and the persons heading is not found in it.\<close>

theorem person_section_never_found_witness:
  "js_match re_deaths_section
     [61, 61, 32, 24524, 26085, 32, 61, 61, 10,
      42, 32, 49, 57, 57, 48, 24180, 32, 45, 32, 87, 97, 108, 107, 109, 97, 110, 10,
      61, 61, 61, 32, 20154, 29289, 32, 61, 61, 61, 10,
      42, 32, 49, 57, 57, 49, 24180, 32, 45, 32, 23665, 30000, 22826, 37070]
   = Some (0, MS 28
       [61, 61, 32, 20154, 29289, 32, 61, 61, 61, 10, 42, 32, 49, 57, 57,
        49, 24180, 32, 45, 32, 23665, 30000, 22826, 37070]
       [(1, [10, 42, 32, 49, 57, 57, 48, 24180, 32, 45, 32, 87, 97, 108,
             107, 109, 97, 110, 10, 61])])
   \<and> js_match re_person_section
       [10, 42, 32, 49, 57, 57, 48, 24180, 32, 45, 32, 87, 97, 108, 107, 109, 97, 110, 10, 61]
     = None"
proof -
  let ?c = "[61, 61, 32, 24524, 26085, 32, 61, 61, 10,
      42, 32, 49, 57, 57, 48, 24180, 32, 45, 32, 87, 97, 108, 107, 109, 97, 110, 10,
      61, 61, 61, 32, 20154, 29289, 32, 61, 61, 61, 10,
      42, 32, 49, 57, 57, 49, 24180, 32, 45, 32, 23665, 30000, 22826, 37070] :: jstring"
  let ?m = "MS 28
       [61, 61, 32, 20154, 29289, 32, 61, 61, 61, 10, 42, 32, 49, 57, 57,
        49, 24180, 32, 45, 32, 23665, 30000, 22826, 37070]
       [(1, [10, 42, 32, 49, 57, 57, 48, 24180, 32, 45, 32, 87, 97, 108,
             107, 109, 97, 110, 10, 61])]"
  have m: "js_match re_deaths_section ?c = Some (0, ?m)" by code_simp
  from person_section_never_found[OF m]
  have "js_match re_person_section (dollar 1 ?m) = None" .
  then have "js_match re_person_section
       [10, 42, 32, 49, 57, 57, 48, 24180, 32, 45, 32, 87, 97, 108, 107, 109, 97, 110, 10, 61]
     = None"
    by (simp add: dollar_def group_def)
  with m show ?thesis by (intro conjI)
qed

section \<open>Which lines are rejected\<close>

text \<open>
  Claim C5, as amended. A candidate line is one that the line pattern matches with a
  non-empty body (its second group). An event line is rejected exactly when the cleaned
  body is empty, contains \<open>'Image:'\<close>, \<open>'File:'\<close>, \<open>'multiple image'\<close> or
  \<open>'{{'\<close>, or has fewer than 11 or more than 149 code units. A birth or death line is
  rejected exactly when the cleaned name has fewer than 2 or more than 49 code units; no
  marker is looked for there. This holds for both parsers (\<open>clean\<close> is
  \<open>cleanWikiText\<close> or \<open>cleanText\<close>, \<open>line_re\<close> the birth or the death pattern).
\<close>

theorem line_reject_rule:
  assumes "group m 2 = Some body" and "body \<noteq> []"
  shows "(js_match re_event_line line = Some (i, m) \<longrightarrow>
            (event_of_line clean line = None \<longleftrightarrow>
               clean body = [] \<or> str_includes (clean body) lit_Image
               \<or> str_includes (clean body) lit_File
               \<or> str_includes (clean body) lit_multiple_image
               \<or> str_includes (clean body) lit_braces
               \<or> length (clean body) < 11 \<or> 149 < length (clean body)))
       \<and> (js_match line_re line = Some (i, m) \<longrightarrow>
            (person_of_line line_re clean line = None \<longleftrightarrow>
               length (clean body) < 2 \<or> 49 < length (clean body)))"
  using assms by (auto simp: event_of_line_def person_of_line_def Let_def)

text \<open>The theorem at the event line \<open>'* 1990nen - see multiple image here'\<close>, which
  is rejected for its \<open>'multiple image'\<close>.\<close>

theorem line_reject_rule_witness:
  "js_match re_event_line
     [42, 32, 49, 57, 57, 48, 24180, 32, 45, 32, 115, 101, 101, 32, 109, 117, 108, 116, 105, 112,
      108, 101, 32, 105, 109, 97, 103, 101, 32, 104, 101, 114, 101]
   = Some (0, MS 33 []
       [(2, [115, 101, 101, 32, 109, 117, 108, 116, 105, 112, 108, 101, 32, 105, 109, 97, 103, 101,
             32, 104, 101, 114, 101]),
        (1, [49, 57, 57, 48, 24180])])
   \<and> event_of_line cleanWikiText
     [42, 32, 49, 57, 57, 48, 24180, 32, 45, 32, 115, 101, 101, 32, 109, 117, 108, 116, 105, 112,
      108, 101, 32, 105, 109, 97, 103, 101, 32, 104, 101, 114, 101] = None
   \<and> str_includes (cleanWikiText
         [115, 101, 101, 32, 109, 117, 108, 116, 105, 112, 108, 101, 32, 105, 109, 97, 103, 101,
          32, 104, 101, 114, 101]) lit_multiple_image"
proof -
  let ?line = "[42, 32, 49, 57, 57, 48, 24180, 32, 45, 32, 115, 101, 101, 32, 109, 117, 108, 116,
      105, 112, 108, 101, 32, 105, 109, 97, 103, 101, 32, 104, 101, 114, 101] :: jstring"
  let ?body = "[115, 101, 101, 32, 109, 117, 108, 116, 105, 112, 108, 101, 32, 105, 109, 97, 103,
      101, 32, 104, 101, 114, 101] :: jstring"
  let ?m = "MS 33 [] [(2, ?body), (1, [49, 57, 57, 48, 24180])]"
  have m: "js_match re_event_line ?line = Some (0, ?m)" by code_simp
  have g: "group ?m 2 = Some ?body" by (simp add: group_def)
  have b: "?body \<noteq> []" by simp
  have inc: "str_includes (cleanWikiText ?body) lit_multiple_image" by code_simp
  from line_reject_rule[OF g b, of ?line 0 cleanWikiText] m inc
  have "event_of_line cleanWikiText ?line = None" by blast
  with m inc show ?thesis by blast
qed

text \<open>
  Claim C5 as stated fails in both directions. The birth line
  \<open>'* 1990nen - File:ab.jpg'\<close> yields the record \<open>'1990nen: File:ab.jpg'\<close> although its
  body contains \<open>'File:'\<close>; and the event line \<open>'* 1990nen - see multiple image here'\<close>
  is rejected although its cleaned body is not empty, has none of \<open>'Image:'\<close>,
  \<open>'File:'\<close>, \<open>'{{'\<close>, and has 23 code units.
\<close>

theorem reject_rule_counterexample:
  "w_births (parseWikipediaContent
      [61, 61, 32, 35477, 29983, 26085, 32, 61, 61, 10,
       42, 32, 49, 57, 57, 48, 24180, 32, 45, 32, 70, 105, 108, 101, 58, 97, 98, 46, 106, 112, 103])
     = [[49, 57, 57, 48, 24180, 58, 32, 70, 105, 108, 101, 58, 97, 98, 46, 106, 112, 103]]
   \<and> str_includes (cleanWikiText [70, 105, 108, 101, 58, 97, 98, 46, 106, 112, 103]) lit_File
   \<and> event_of_line cleanWikiText
        [42, 32, 49, 57, 57, 48, 24180, 32, 45, 32, 115, 101, 101, 32, 109, 117, 108, 116, 105,
         112, 108, 101, 32, 105, 109, 97, 103, 101, 32, 104, 101, 114, 101] = None
   \<and> cleanWikiText [115, 101, 101, 32, 109, 117, 108, 116, 105, 112, 108, 101, 32, 105, 109, 97,
         103, 101, 32, 104, 101, 114, 101]
       = [115, 101, 101, 32, 109, 117, 108, 116, 105, 112, 108, 101, 32, 105, 109, 97, 103, 101,
          32, 104, 101, 114, 101]
   \<and> \<not> str_includes [115, 101, 101, 32, 109, 117, 108, 116, 105, 112, 108, 101, 32, 105, 109,
          97, 103, 101, 32, 104, 101, 114, 101] lit_Image
   \<and> \<not> str_includes [115, 101, 101, 32, 109, 117, 108, 116, 105, 112, 108, 101, 32, 105, 109,
          97, 103, 101, 32, 104, 101, 114, 101] lit_File
   \<and> \<not> str_includes [115, 101, 101, 32, 109, 117, 108, 116, 105, 112, 108, 101, 32, 105, 109,
          97, 103, 101, 32, 104, 101, 114, 101] lit_braces
   \<and> length [115, 101, 101, 32, 109, 117, 108, 116, 105, 112, 108, 101, 32, 105, 109,
          97, 103, 101, 32, 104, 101, 114, 101 :: int] = 23"
  by code_simp

section \<open>The label of a birth or death record\<close>

text \<open>
  Claim C6, as amended. For every birth or death line that the line pattern matches
  with a non-empty body whose cleaned name has between 2 and 49 code units, the record
  is one string: the year as captured, \<open>': '\<close>, the cleaned name, and then the cleaned
  role in full-width parentheses when a role was captured and survives cleaning. The
  year is not kept apart from the label; it is the start of the string.
\<close>

theorem person_label_format:
  assumes "js_match line_re line = Some (i, m)" and "group m 2 = Some body" and "body \<noteq> []"
    and "1 < length (clean body)" and "length (clean body) < 50"
  shows "person_of_line line_re clean line =
           Some (dollar 1 m @ [58, 32] @ clean body @
             (case group m 3 of
                None \<Rightarrow> []
              | Some role \<Rightarrow>
                  if role = [] \<or> clean role = [] then []
                  else [65288] @ clean role @ [65289]))"
  using assms
  by (auto simp: person_of_line_def Let_def lit_colon_space_def lit_fw_lparen_def
        lit_fw_rparen_def split: option.splits)

text \<open>The theorem at the birth line \<open>'* 1990nen - NAME, ROLE'\<close> (a name of four and
  a role of two ideographs, separated by the ideographic comma).\<close>

theorem person_label_format_witness:
  "person_of_line re_birth_line cleanWikiText
     [42, 32, 49, 57, 57, 48, 24180, 32, 45, 32, 23665, 30000, 22826, 37070, 12289, 20467, 20778]
   = Some ([49, 57, 57, 48, 24180] @ [58, 32] @ [23665, 30000, 22826, 37070]
           @ [65288] @ [20467, 20778] @ [65289])"
proof -
  let ?line = "[42, 32, 49, 57, 57, 48, 24180, 32, 45, 32, 23665, 30000, 22826, 37070, 12289,
      20467, 20778] :: jstring"
  let ?body = "[23665, 30000, 22826, 37070] :: jstring"
  let ?m = "MS 17 [] [(3, [20467, 20778]), (2, ?body), (1, [49, 57, 57, 48, 24180])]"
  have m: "js_match re_birth_line ?line = Some (0, ?m)" by code_simp
  have g: "group ?m 2 = Some ?body" by (simp add: group_def)
  have b: "?body \<noteq> []" by simp
  have c: "cleanWikiText ?body = ?body" by code_simp
  have r: "cleanWikiText [20467, 20778] = [20467, 20778]" by code_simp
  have l: "1 < length (cleanWikiText ?body)" "length (cleanWikiText ?body) < 50"
    by (simp_all add: c)
  from person_label_format[of re_birth_line ?line 0 ?m ?body cleanWikiText, OF m g b l]
  show ?thesis
    by (simp add: c r group_def dollar_def)
qed

text \<open>
  Claim C6 as stated fails: the year is not stored apart from the label. The page
  \<^verbatim>\<open>== tanjoubi ==\n* 1990nen - NAME, ROLE\<close> gives the single birth record
  \<open>'1990nen: NAME(ROLE)'\<close>, a string that starts with the year, not the label
  \<open>'NAME(ROLE)'\<close>.
\<close>

theorem person_label_counterexample:
  "w_births (parseWikipediaContent
      [61, 61, 32, 35477, 29983, 26085, 32, 61, 61, 10,
       42, 32, 49, 57, 57, 48, 24180, 32, 45, 32, 23665, 30000, 22826, 37070, 12289, 20467, 20778])
     = [[49, 57, 57, 48, 24180, 58, 32, 23665, 30000, 22826, 37070, 65288, 20467, 20778, 65289]]
   \<and> w_births (parseWikipediaContent
      [61, 61, 32, 35477, 29983, 26085, 32, 61, 61, 10,
       42, 32, 49, 57, 57, 48, 24180, 32, 45, 32, 23665, 30000, 22826, 37070, 12289, 20467, 20778])
     \<noteq> [[23665, 30000, 22826, 37070, 65288, 20467, 20778, 65289]]"
  by code_simp

section \<open>A failing primary fetch\<close>

text \<open>
  Claim C7, as amended. When the fetch of the HTML page throws, \<open>fetchTodayInfo\<close>
  returns \<open>null\<close>, so the run produces no digest, and \<open>main\<close> returns without posting
  anything: no message, and no error notice either, reaches the messaging sink.
\<close>

theorem primary_failure_posts_nothing:
  "php_fetch w = Inl e \<Longrightarrow> fetchTodayInfo w = None \<and> main w = []"
  by (simp add: fetchTodayInfo_def main_def)

theorem primary_failure_posts_nothing_witness:
  "php_fetch world_php_down = Inl (Exn [98, 111, 111, 109])
   \<and> fetchTodayInfo world_php_down = None \<and> main world_php_down = []"
  using primary_failure_posts_nothing[of world_php_down "Exn [98, 111, 111, 109]"]
  by (simp add: world_php_down_def)

text \<open>
  Claim C7 as stated fails: it has an error notice sent. In the run
  \<open>world_php_down\<close> the fetch throws and the webhook is configured, yet nothing is
  posted; in particular the error notice for the thrown error is not.
\<close>

theorem primary_failure_no_notice_counterexample:
  "php_fetch world_php_down = Inl (Exn [98, 111, 111, 109])
   \<and> webhook_url world_php_down \<noteq> None
   \<and> main world_php_down = []
   \<and> main world_php_down \<noteq> [lit_error_notice @ render (Exn [98, 111, 111, 109])]"
  by (simp add: world_php_down_def fetchTodayInfo_def main_def)

section \<open>The presenter\<close>

lemma add_lines_eq: "add_lines message xs = message @ concat (map (\<lambda>e. lit_dot @ e @ [10]) xs)"
  by (induction xs arbitrary: message) simp_all

lemma formatSlackMessage_spec: "formatSlackMessage info = spec_presenter info"
  by (simp add: formatSlackMessage_def spec_presenter_def spec_section_def
        spec_flower_section_def add_lines_eq slice0_def Let_def split: option.splits)

text \<open>
  Claim C9. For every digest, \<open>formatSlackMessage\<close> renders what the specification
  describes (\<open>spec_presenter\<close>): the title, then a section for each non-empty category
  and none for an empty one, in the order anniversaries, historical events, births,
  flower, each list cut to its first five entries, then the footer. Entries beyond the
  fifth of a list never change the message.
\<close>

theorem presenter_refines_spec:
  "formatSlackMessage info = spec_presenter info
   \<and> formatSlackMessage info =
       formatSlackMessage (info\<lparr> events := take 5 (events info),
                                  historical := take 5 (historical info),
                                  births := take 5 (births info) \<rparr>)
   \<and> (\<exists>body. formatSlackMessage info = lit_title @ date info @ [10, 10] @ body @ lit_footer)"
  by (simp add: formatSlackMessage_spec spec_presenter_def spec_section_def)

section \<open>Rounding to a double\<close>

lemma bit_length_nonneg: "0 \<le> bit_length n"
  by (induction n rule: bit_length.induct) (subst bit_length.simps, simp)

lemma bit_length_pos: "0 < n \<Longrightarrow> 0 < bit_length n"
  using bit_length_nonneg[of "n div 2"] by (subst bit_length.simps) simp

lemma bit_length_bounds:
  "0 < n \<Longrightarrow> 2 ^ nat (bit_length n - 1) \<le> n \<and> n < 2 ^ nat (bit_length n)"
proof (induction n rule: bit_length.induct)
  case (1 n)
  show ?case
  proof (cases "n = 1")
    case True
    have "bit_length 1 = 1" by (simp add: bit_length.simps)
    with True show ?thesis by simp
  next
    case False
    with 1(2) have h: "0 < n div 2" by simp
    from 1(2) have "\<not> n \<le> 0" by simp
    from 1(1)[OF this h] have ih:
      "2 ^ nat (bit_length (n div 2) - 1) \<le> n div 2" "n div 2 < 2 ^ nat (bit_length (n div 2))"
      by simp_all
    let ?b = "bit_length (n div 2)"
    have bp: "0 < ?b" by (rule bit_length_pos[OF h])
    have bn: "bit_length n = 1 + ?b" using 1(2) by (subst bit_length.simps) simp
    have e1: "(2::int) ^ nat ?b = 2 * 2 ^ nat (?b - 1)"
      using bp by (metis Suc_diff_1 nat_diff_distrib' nat_1 power_Suc zero_less_nat_eq zero_le_one order_less_imp_le nat_one_as_int)
    have e2: "(2::int) ^ nat (1 + ?b) = 2 * 2 ^ nat ?b"
      using bp by (simp add: nat_add_distrib)
    have "2 ^ nat ?b \<le> n" using ih(1) e1 by simp
    moreover have "n < 2 ^ nat (1 + ?b)" using ih(2) e2 by simp
    ultimately show ?thesis using bn by simp
  qed
qed


lemma p2_pos [simp]: "0 < (2::rat) powi k"
  by (simp add: zero_less_power_int)

lemma p2_add: "(2::rat) powi (a + b) = 2 powi a * 2 powi b"
  by (simp add: power_int_add)

lemma p2_mono: "a \<le> b \<Longrightarrow> (2::rat) powi a \<le> 2 powi b"
  by (simp add: power_int_increasing)

lemma p2_strict_mono: "a < b \<Longrightarrow> (2::rat) powi a < 2 powi b"
  by (simp add: power_int_strict_increasing)

lemma p2_le_iff: "(2::rat) powi a \<le> 2 powi b \<longleftrightarrow> a \<le> b"
  by (meson linorder_not_less p2_mono p2_strict_mono)

lemma p2_less_iff: "(2::rat) powi a < 2 powi b \<longleftrightarrow> a < b"
  by (meson linorder_not_less p2_mono p2_strict_mono)

lemma bit_length_rat:
  assumes "0 < n"
  shows "2 powi (bit_length n - 1) \<le> (of_int n :: rat)" and "(of_int n :: rat) < 2 powi bit_length n"
proof -
  from bit_length_bounds[OF assms] have
    a: "2 ^ nat (bit_length n - 1) \<le> n" and b: "n < 2 ^ nat (bit_length n)" by simp_all
  have p: "0 \<le> bit_length n - 1" using bit_length_pos[OF assms] by simp
  from a have "(of_int (2 ^ nat (bit_length n - 1)) :: rat) \<le> of_int n" by (simp only: of_int_le_iff)
  then show "2 powi (bit_length n - 1) \<le> (of_int n :: rat)"
    using p by (simp add: power_int_nonneg_exp)
  from b have "(of_int n :: rat) < of_int (2 ^ nat (bit_length n))" by (simp only: of_int_less_iff)
  then show "(of_int n :: rat) < 2 powi bit_length n"
    using bit_length_nonneg[of n] by (simp add: power_int_nonneg_exp)
qed

lemma floor_log2_bounds:
  assumes "0 < x"
  shows "2 powi floor_log2 x \<le> x" and "x < 2 powi (floor_log2 x + 1)"
proof -
  obtain a b where q: "quotient_of x = (a, b)" by (cases "quotient_of x")
  then have b: "0 < b" by (rule quotient_of_denom_pos)
  from q have x: "x = of_int a / of_int b" by (rule quotient_of_div)
  with assms b have a: "0 < a" by (simp add: zero_less_divide_iff)
  let ?la = "bit_length a" and ?lb = "bit_length b"
  note A = bit_length_rat[OF a] and B = bit_length_rat[OF b]
  have bpos: "0 < (of_int b :: rat)" using b by simp
  have up: "x < 2 powi (?la - ?lb + 1)"
  proof -
    have "of_int a * 2 powi (?lb - 1) < 2 powi ?la * (of_int b :: rat)"
      using A(2) B(1) a b by (intro mult_less_le_imp_less) simp_all
    then have "of_int a < 2 powi ?la * (of_int b :: rat) / 2 powi (?lb - 1)"
      by (simp add: pos_less_divide_eq)
    then have "x < 2 powi ?la / 2 powi (?lb - 1)"
      unfolding x using bpos by (simp add: pos_divide_less_eq mult.commute)
    also have "\<dots> = 2 powi (?la - ?lb + 1)"
      by (simp add: power_int_diff[symmetric] algebra_simps)
    finally show ?thesis .
  qed
  have lo: "2 powi (?la - ?lb - 1) \<le> x"
  proof -
    have "2 powi (?la - 1) * (of_int b :: rat) \<le> of_int a * 2 powi ?lb"
      using A(1) B(2) a b by (intro mult_mono) simp_all
    then have "2 powi (?la - 1) / 2 powi ?lb * (of_int b :: rat) \<le> of_int a"
      by (simp add: pos_divide_le_eq mult.commute)
    then have "2 powi (?la - 1) / 2 powi ?lb \<le> x"
      unfolding x using bpos by (simp add: pos_le_divide_eq)
    moreover have "(2::rat) powi (?la - 1) / 2 powi ?lb = 2 powi (?la - ?lb - 1)"
      by (simp add: power_int_diff[symmetric] algebra_simps)
    ultimately show ?thesis by simp
  qed
  show "2 powi floor_log2 x \<le> x"
    using lo by (simp add: floor_log2_def q Let_def)
  show "x < 2 powi (floor_log2 x + 1)"
    using up by (auto simp: floor_log2_def q Let_def not_le)
qed

lemma floor_log2_unique:
  assumes "2 powi k \<le> x" and "x < 2 powi (k + 1)"
  shows "floor_log2 x = k"
proof -
  have x: "0 < x" using assms(1) p2_pos[of k] by (rule less_le_trans[rotated])
  note F = floor_log2_bounds[OF x]
  from assms(1) F(2) have "2 powi k < (2::rat) powi (floor_log2 x + 1)" by simp
  then have "k < floor_log2 x + 1" by (simp only: p2_less_iff)
  moreover from F(1) assms(2) have "2 powi floor_log2 x < (2::rat) powi (k + 1)" by simp
  then have "floor_log2 x < k + 1" by (simp only: p2_less_iff)
  ultimately show ?thesis by simp
qed


lemma rhe_of_int [simp]: "round_half_even (of_int M) = M"
  by (simp add: round_half_even_def)

lemma rhe_bounds: "\<lfloor>q\<rfloor> \<le> round_half_even q" "round_half_even q \<le> \<lfloor>q\<rfloor> + 1"
  by (simp_all add: round_half_even_def Let_def)

lemma rhe_nearest: "\<bar>of_int (round_half_even q) - q\<bar> \<le> \<bar>of_int M - q\<bar>"
proof -
  define f where "f = \<lfloor>q\<rfloor>"
  have f: "of_int f \<le> q" "q < of_int f + 1"
    using floor_correct[of q] by (simp_all add: f_def)
  consider "M \<le> f" | "f + 1 \<le> M" by linarith
  then show ?thesis
  proof cases
    case 1
    then have "(of_int M :: rat) \<le> of_int f" by (simp only: of_int_le_iff)
    with f show ?thesis
      unfolding round_half_even_def Let_def f_def[symmetric] by (auto simp: abs_if)
  next
    case 2
    then have "(of_int (f + 1) :: rat) \<le> of_int M" by (simp only: of_int_le_iff)
    then have "of_int f + 1 \<le> (of_int M :: rat)" by simp
    with f show ?thesis
      unfolding round_half_even_def Let_def f_def[symmetric] by (auto simp: abs_if)
  qed
qed

lemma round_double_neg: "round_double (- x) = - round_double x"
  by (simp add: round_double_def ulp_exp_def)

lemma round_double_pos:
  "0 < x \<Longrightarrow> round_double x = of_int (round_half_even (x / 2 powi ulp_exp x)) * 2 powi ulp_exp x"
  by (simp add: round_double_def)

lemma ulp_exp_ge: "- 1074 \<le> ulp_exp x"
  by (simp add: ulp_exp_def)

lemma ulp_exp_upper:
  assumes "0 < x"
  shows "x < 2 powi (ulp_exp x + 53)"
proof -
  have "x < 2 powi (floor_log2 x + 1)" by (rule floor_log2_bounds[OF assms])
  also have "\<dots> \<le> 2 powi (ulp_exp x + 53)"
    using assms by (intro p2_mono) (simp add: ulp_exp_def)
  finally show ?thesis .
qed

lemma ulp_exp_lower:
  assumes "0 < x" and "- 1074 < ulp_exp x"
  shows "2 powi (ulp_exp x + 52) \<le> x"
proof -
  from assms have "ulp_exp x = floor_log2 x - 52" by (simp add: ulp_exp_def max_def split: if_splits)
  then have "ulp_exp x + 52 = floor_log2 x" by simp
  then show ?thesis using floor_log2_bounds(1)[OF assms(1)] by simp
qed

lemma ulp_exp_le:
  assumes "0 < x" and "x < 2 powi (k + 53)" and "- 1074 \<le> k"
  shows "ulp_exp x \<le> k"
proof -
  from floor_log2_bounds(1)[OF assms(1)] assms(2) have "2 powi floor_log2 x < (2::rat) powi (k + 53)"
    by simp
  then have "floor_log2 x < k + 53" by (simp only: p2_less_iff)
  with assms show ?thesis by (simp add: ulp_exp_def)
qed

lemma div_p2: "x / 2 powi e = x * 2 powi (- e)" for x :: rat
  by (simp add: power_int_minus field_simps)

lemma p2_nat: "0 \<le> k \<Longrightarrow> (2::rat) powi k = of_int (2 ^ nat k)"
  by (simp add: power_int_nonneg_exp)

lemma double_intro_lt:
  assumes "0 \<le> m" and "m < 2 ^ 53" and "- 1074 \<le> k"
  shows "round_double (of_int m * 2 powi k) = of_int m * 2 powi k"
proof (cases "m = 0")
  case True
  then show ?thesis by (simp add: round_double_def)
next
  case False
  with assms have m: "0 < m" by simp
  let ?x = "of_int m * 2 powi k :: rat"
  have x: "0 < ?x" using m by simp
  have "(of_int m :: rat) < of_int (2 ^ 53)" using assms(2) by (simp only: of_int_less_iff)
  then have "(of_int m :: rat) < 2 powi 53" by simp
  then have "?x < 2 powi 53 * 2 powi k" by simp
  then have "?x < 2 powi (k + 53)" by (simp add: p2_add mult.commute)
  from ulp_exp_le[OF x this assms(3)] have e: "ulp_exp ?x \<le> k" .
  have "?x / 2 powi ulp_exp ?x = of_int m * 2 powi (k - ulp_exp ?x)"
    by (simp add: div_p2 p2_add[symmetric] mult.assoc)
  also have "\<dots> = of_int (m * 2 ^ nat (k - ulp_exp ?x))"
    using e by (simp add: p2_nat)
  finally have "round_half_even (?x / 2 powi ulp_exp ?x) = m * 2 ^ nat (k - ulp_exp ?x)"
    by (simp only: rhe_of_int)
  then have "round_double ?x = of_int (m * 2 ^ nat (k - ulp_exp ?x)) * 2 powi ulp_exp ?x"
    by (simp only: round_double_pos[OF x])
  also have "\<dots> = of_int m * (2 powi (k - ulp_exp ?x) * 2 powi ulp_exp ?x)"
    using e by (simp add: p2_nat)
  also have "\<dots> = ?x" by (simp add: p2_add[symmetric])
  finally show ?thesis .
qed

lemma double_intro:
  assumes "0 \<le> m" and "m \<le> 2 ^ 53" and "- 1074 \<le> k"
  shows "is_double (of_int m * 2 powi k)"
proof (cases "m = 2 ^ 53")
  case True
  have "of_int m * 2 powi k = (of_int (2 ^ 52) :: rat) * 2 powi (k + 1)"
    unfolding True by (simp add: p2_add)
  moreover have "round_double (of_int (2 ^ 52) * 2 powi (k + 1)) = of_int (2 ^ 52) * 2 powi (k + 1)"
    using assms(3) by (intro double_intro_lt) simp_all
  ultimately show ?thesis by (simp only: is_double_def)
next
  case False
  with assms(2) have "m < 2 ^ 53" by simp
  from double_intro_lt[OF assms(1) this assms(3)] show ?thesis by (simp only: is_double_def)
qed

lemma round_double_form:
  assumes "0 < x"
  shows "\<exists>m. 0 \<le> m \<and> m \<le> 2 ^ 53 \<and> round_double x = of_int m * 2 powi ulp_exp x"
proof -
  let ?e = "ulp_exp x"
  let ?q = "x / 2 powi ?e"
  have qp: "0 < ?q" using assms by simp
  have "x < 2 powi 53 * 2 powi ?e" using ulp_exp_upper[OF assms] by (simp add: p2_add mult.commute)
  then have "?q < 2 powi 53" by (simp add: pos_divide_less_eq)
  then have "?q < of_int (2 ^ 53)" by simp
  then have "\<lfloor>?q\<rfloor> < 2 ^ 53" by (simp only: floor_less_iff)
  with rhe_bounds(2)[of ?q] have u: "round_half_even ?q \<le> 2 ^ 53" by linarith
  have "0 \<le> \<lfloor>?q\<rfloor>" using qp by simp
  with rhe_bounds(1)[of ?q] have l: "0 \<le> round_half_even ?q" by linarith
  from l u round_double_pos[OF assms] show ?thesis by blast
qed

lemma round_double_nonneg: "0 \<le> x \<Longrightarrow> 0 \<le> round_double x"
proof (cases "x = 0")
  case True
  then show ?thesis by (simp add: round_double_def)
next
  case False
  assume "0 \<le> x"
  with False have "0 < x" by simp
  from round_double_form[OF this] show ?thesis by auto
qed

lemma is_double_form:
  assumes "is_double d" and "0 \<le> d"
  shows "\<exists>m k. 0 \<le> m \<and> m \<le> 2 ^ 53 \<and> - 1074 \<le> k \<and> d = of_int m * 2 powi k"
proof (cases "d = 0")
  case True
  then show ?thesis by (intro exI[of _ 0] exI[of _ 0]) simp
next
  case False
  with assms(2) have "0 < d" by simp
  from round_double_form[OF this] assms(1) ulp_exp_ge[of d] show ?thesis
    unfolding is_double_def by metis
qed


lemma scaled_dist:
  "\<bar>of_int M * 2 powi e - x\<bar> = \<bar>of_int M - x / 2 powi e\<bar> * 2 powi e" for x :: rat
proof -
  have "of_int M * 2 powi e - x = (of_int M - x / 2 powi e) * 2 powi e"
    by (simp add: algebra_simps)
  then show ?thesis by (simp only: abs_mult) simp
qed

lemma round_double_nearest_form:
  assumes "0 < x" and "0 \<le> m" and "m \<le> 2 ^ 53" and "- 1074 \<le> k"
  shows "\<bar>round_double x - x\<bar> \<le> \<bar>of_int m * 2 powi k - x\<bar>"
proof -
  let ?e = "ulp_exp x"
  let ?q = "x / 2 powi ?e"
  let ?r = "round_half_even ?q"
  have dist: "\<bar>round_double x - x\<bar> = \<bar>of_int ?r - ?q\<bar> * 2 powi ?e"
    unfolding round_double_pos[OF assms(1)] by (rule scaled_dist)
  show ?thesis
  proof (cases "?e \<le> k")
    case True
    let ?M = "m * 2 ^ nat (k - ?e)"
    have "of_int m * 2 powi k = of_int m * (2 powi (k - ?e) * 2 powi ?e :: rat)"
      by (simp add: p2_add[symmetric])
    also have "\<dots> = of_int ?M * 2 powi ?e"
      using True by (simp add: p2_nat)
    finally have d: "of_int m * 2 powi k = (of_int ?M :: rat) * 2 powi ?e" .
    have "\<bar>of_int ?r - ?q\<bar> * 2 powi ?e \<le> \<bar>of_int ?M - ?q\<bar> * 2 powi ?e"
      by (intro mult_right_mono rhe_nearest) simp
    then show ?thesis unfolding dist d scaled_dist .
  next
    case False
    then have ke: "k + 53 \<le> ?e + 52" by simp
    from False assms(4) have "- 1074 < ?e" by simp
    from ulp_exp_lower[OF assms(1) this] have lo: "2 powi (?e + 52) \<le> x" .
    have "(of_int m :: rat) \<le> of_int (2 ^ 53)" using assms(3) by (simp only: of_int_le_iff)
    then have "(of_int m :: rat) \<le> 2 powi 53" by simp
    then have "of_int m * 2 powi k \<le> 2 powi 53 * (2 powi k :: rat)"
      by (intro mult_right_mono) simp_all
    also have "\<dots> = 2 powi (k + 53)" by (simp add: p2_add mult.commute)
    also have "\<dots> \<le> 2 powi (?e + 52)" by (rule p2_mono[OF ke])
    finally have dl: "of_int m * 2 powi k \<le> (2 powi (?e + 52) :: rat)" .
    have "\<bar>of_int ?r - ?q\<bar> * 2 powi ?e \<le> \<bar>of_int (2 ^ 52) - ?q\<bar> * 2 powi ?e"
      by (intro mult_right_mono rhe_nearest) simp
    also have "\<dots> = \<bar>of_int (2 ^ 52) * 2 powi ?e - x\<bar>" by (simp only: scaled_dist)
    also have "of_int (2 ^ 52) * 2 powi ?e = (2 powi (?e + 52) :: rat)"
      by (simp add: p2_add mult.commute)
    also have "\<bar>2 powi (?e + 52) - x\<bar> \<le> \<bar>of_int m * 2 powi k - x\<bar>"
      using lo dl by simp
    finally show ?thesis unfolding dist .
  qed
qed

lemma round_double_nearest:
  assumes "0 \<le> x" and "is_double d" and "0 \<le> d"
  shows "\<bar>round_double x - x\<bar> \<le> \<bar>d - x\<bar>"
proof (cases "x = 0")
  case True
  then show ?thesis by (simp add: round_double_def)
next
  case False
  with assms(1) have x: "0 < x" by simp
  from is_double_form[OF assms(2,3)] obtain m k where
    "0 \<le> m" "m \<le> 2 ^ 53" "- 1074 \<le> k" "d = of_int m * 2 powi k" by blast
  with round_double_nearest_form[OF x, of m k] show ?thesis by simp
qed

lemma round_double_ge:
  assumes "is_double d" and "0 \<le> d" and "d \<le> x"
  shows "d \<le> round_double x"
proof (rule ccontr)
  assume "\<not> d \<le> round_double x"
  then have "round_double x < d" by simp
  moreover from assms have "0 \<le> x" by simp
  from round_double_nearest[OF this assms(1,2)] have "\<bar>round_double x - x\<bar> \<le> \<bar>d - x\<bar>" .
  ultimately show False using assms(3) by simp
qed

lemma round_double_le:
  assumes "is_double d" and "0 \<le> x" and "x \<le> d"
  shows "round_double x \<le> d"
proof (rule ccontr)
  assume "\<not> round_double x \<le> d"
  then have "d < round_double x" by simp
  moreover from assms have "0 \<le> d" by simp
  from round_double_nearest[OF assms(2,1) this] have "\<bar>round_double x - x\<bar> \<le> \<bar>d - x\<bar>" .
  ultimately show False using assms(3) by simp
qed

lemma is_double_of_int:
  assumes "0 \<le> n" and "n \<le> 2 ^ 53"
  shows "is_double (of_int n)"
  using double_intro[OF assms, of 0] by simp

lemma round_double_of_int:
  assumes "\<bar>n\<bar> \<le> 2 ^ 53"
  shows "round_double (of_int n) = of_int n"
proof (cases "0 \<le> n")
  case True
  with assms is_double_of_int[of n] show ?thesis by (simp add: is_double_def)
next
  case False
  with assms is_double_of_int[of "- n"] have "round_double (of_int (- n)) = of_int (- n)"
    by (simp add: is_double_def)
  then show ?thesis by (simp add: round_double_neg)
qed


lemma double_below_one:
  assumes "is_double r" and "0 \<le> r" and "r < 1"
  shows "r \<le> 1 - 1 / 2 ^ 53"
proof (cases "r < 1 / 2")
  case True
  then show ?thesis by simp
next
  case False
  then have h: "2 powi (- 1) \<le> r" by (simp add: power_int_minus)
  from assms(3) have "r < 2 powi (- 1 + 1)" by simp
  from floor_log2_unique[OF h this] have "floor_log2 r = - 1" .
  moreover have r: "0 < r" using p2_pos[of "- 1"] h by (rule less_le_trans)
  ultimately have e: "ulp_exp r = - 53" by (simp add: ulp_exp_def)
  let ?M = "round_half_even (r / 2 powi (- 53))"
  from assms(1) have "of_int ?M * 2 powi (- 53) = r"
    unfolding is_double_def round_double_pos[OF r] e .
  then have eq: "of_int ?M = r * 2 ^ 53"
    by (simp add: power_int_minus field_simps)
  with assms(3) have "(of_int ?M :: rat) < of_int (2 ^ 53)" by simp
  then have "?M < 2 ^ 53" by (simp only: of_int_less_iff)
  then have "?M \<le> 2 ^ 53 - 1" by simp
  then have "(of_int ?M :: rat) \<le> of_int (2 ^ 53 - 1)" by (simp only: of_int_le_iff)
  with eq have "r * 2 ^ 53 \<le> 2 ^ 53 - 1" by simp
  then show ?thesis by (simp add: field_simps)
qed

lemma round_double_below:
  assumes "1 \<le> N" and "N \<le> 2 ^ 53" and "0 \<le> x" and "x \<le> of_int N - of_int N / 2 ^ 53"
  shows "round_double x < of_int N"
proof -
  define k where "k = floor_log2 (of_int N)"
  have Np: "0 < (of_int N :: rat)" using assms(1) by simp
  note B = floor_log2_bounds[OF Np, folded k_def]
  have N1: "(1::rat) \<le> of_int N" using assms(1) by simp
  with B(2) have "2 powi 0 < (2::rat) powi (k + 1)" by simp
  then have k0: "0 \<le> k" by (simp only: p2_less_iff)
  have "(of_int N :: rat) \<le> of_int (2 ^ 53)" using assms(2) by (simp only: of_int_le_iff)
  then have N53: "(of_int N :: rat) \<le> 2 powi 53" by simp
  with B(1) have "2 powi k \<le> (2::rat) powi 53" by simp
  then have k53: "k \<le> 53" by (simp only: p2_le_iff)
  define u :: rat where "u = 2 powi (k - 53)"
  have u: "0 < u" by (simp add: u_def)
  have ku: "2 powi k = u * 2 ^ 53"
    unfolding u_def by (simp add: power_int_diff)
  show ?thesis
  proof (cases "of_int N = (2::rat) powi k")
    case True
    let ?d = "of_int (2 ^ 53 - 1) * 2 powi (k - 53) :: rat"
    have d: "is_double ?d" using k0 by (intro double_intro) simp_all
    have dv: "?d = of_int N - of_int N / 2 ^ 53"
      unfolding True ku u_def[symmetric] by (simp add: algebra_simps)
    with assms(4) have "x \<le> ?d" by simp
    from round_double_le[OF d assms(3) this] have "round_double x \<le> ?d" .
    also have "?d < of_int N" unfolding dv using Np by simp
    finally show ?thesis .
  next
    case False
    with B(1) have lt: "2 powi k < (of_int N :: rat)" by simp
    with N53 have "2 powi k < (2::rat) powi 53" by simp
    then have k52: "k \<le> 52" by (simp only: p2_less_iff)
    let ?m = "N * 2 ^ nat (52 - k) - 1"
    let ?d = "of_int ?m * 2 powi (k - 52) :: rat"
    have p: "(2::rat) powi (52 - k) = of_int (2 ^ nat (52 - k))" using k52 by (simp add: p2_nat)
    have "of_int N * 2 powi (52 - k) < 2 powi (k + 1) * (2 powi (52 - k) :: rat)"
      using B(2) by simp
    also have "\<dots> = 2 powi 53" by (simp add: p2_add[symmetric])
    finally have "(of_int (N * 2 ^ nat (52 - k)) :: rat) < of_int (2 ^ 53)"
      by (simp add: p)
    then have m2: "N * 2 ^ nat (52 - k) < 2 ^ 53" by (simp only: of_int_less_iff)
    have "1 * 1 \<le> N * 2 ^ nat (52 - k)"
      using assms(1) by (intro mult_mono) simp_all
    then have m1: "0 \<le> ?m" by simp
    have d: "is_double ?d" using k0 m1 m2 by (intro double_intro) simp_all
    have e1: "2 powi (52 - k) * 2 powi (k - 52) = (1::rat)"
      by (simp add: p2_add[symmetric])
    have e2: "(2::rat) powi (k - 52) = 2 * u"
      unfolding u_def by (simp add: power_int_diff)
    have A: "?d = of_int N * (2 powi (52 - k) * 2 powi (k - 52)) - 2 powi (k - 52)"
      by (simp add: p algebra_simps)
    have B: "of_int N * (2 powi (52 - k) * 2 powi (k - 52)) - 2 powi (k - 52) = of_int N - 2 * u"
      by (simp only: e1 mult_1_right) (simp only: e2)
    from A B have dv: "?d = of_int N - 2 * u" by (rule trans)
    have "u < of_int N / 2 ^ 53" using lt unfolding ku by (simp add: field_simps)
    with assms(4) have mid: "x < of_int N - u" by simp
    from m1 have "(0::rat) \<le> of_int ?m" by (simp only: of_int_0_le_iff)
    then have dn: "0 \<le> ?d" by (intro mult_nonneg_nonneg) simp_all
    from round_double_nearest[OF assms(3) d dn] have "\<bar>round_double x - x\<bar> \<le> \<bar>?d - x\<bar>" .
    with mid u show ?thesis unfolding dv by (auto simp: abs_if split: if_splits)
  qed
qed

subsection \<open>Numbers\<close>

lemma is_double_neg: "is_double (- d) \<longleftrightarrow> is_double d"
  by (simp add: is_double_def round_double_neg)

lemma is_double_round_double: "is_double (round_double x)"
proof -
  have pos: "is_double (round_double x)" if "0 < x" for x
  proof -
    from round_double_form[OF that] obtain m where
      "0 \<le> m" "m \<le> 2 ^ 53" "round_double x = of_int m * 2 powi ulp_exp x" by blast
    with double_intro[OF this(1,2) ulp_exp_ge[of x]] show ?thesis by simp
  qed
  consider "x = 0" | "0 < x" | "0 < - x" by linarith
  then show ?thesis
  proof cases
    case 1
    then show ?thesis by (simp add: is_double_def round_double_def)
  next
    case 2
    then show ?thesis by (rule pos)
  next
    case 3
    from pos[OF this] show ?thesis by (simp add: round_double_neg is_double_neg)
  qed
qed

lemma round_double_int:
  "\<exists>z. round_double (of_int n) = of_int z"
proof -
  have pos: "\<exists>z. round_double (of_int n) = of_int z" if n: "0 < n" for n
  proof -
    let ?x = "of_int n :: rat"
    have x: "0 < ?x" using n by simp
    let ?e = "ulp_exp ?x"
    show ?thesis
    proof (cases "0 \<le> ?e")
      case True
      have "round_double ?x = of_int (round_half_even (?x / 2 powi ?e) * 2 ^ nat ?e)"
        using True by (simp add: round_double_pos[OF x] p2_nat)
      then show ?thesis by blast
    next
      case False
      then have "0 \<le> - ?e" by simp
      then have "?x / 2 powi ?e = of_int (n * 2 ^ nat (- ?e))"
        by (simp add: div_p2 p2_nat)
      then have "round_half_even (?x / 2 powi ?e) = n * 2 ^ nat (- ?e)" by (simp only: rhe_of_int)
      then have "round_double ?x = of_int (n * 2 ^ nat (- ?e)) * 2 powi ?e"
        by (simp only: round_double_pos[OF x])
      also have "\<dots> = ?x * (2 powi (- ?e) * 2 powi ?e)"
        using False by (simp add: p2_nat)
      also have "\<dots> = ?x" by (simp add: p2_add[symmetric])
      finally show ?thesis by blast
    qed
  qed
  consider "n = 0" | "0 < n" | "0 < - n" by linarith
  then show ?thesis
  proof cases
    case 1
    then show ?thesis by (simp add: round_double_def)
  next
    case 2
    then show ?thesis by (rule pos)
  next
    case 3
    from pos[OF this] obtain z where "round_double (of_int (- n)) = of_int z" by blast
    then have "round_double (of_int n) = of_int (- z)" by (simp add: round_double_neg)
    then show ?thesis by blast
  qed
qed

lemma round_double_ge_one: "1 \<le> x \<Longrightarrow> 1 \<le> round_double x"
  using round_double_ge[of 1 x] is_double_of_int[of 1] by simp

lemma round_double_sgn:
  "0 < round_double x \<Longrightarrow> 0 < x"
proof (rule ccontr)
  assume a: "0 < round_double x" "\<not> 0 < x"
  then have "0 \<le> - x" by simp
  from round_double_nonneg[OF this] a(1) show False by (simp add: round_double_neg)
qed

lemma floor_log2_zero: "floor_log2 0 = - 2"
  by (simp add: floor_log2_def bit_length.simps power_int_minus)

lemma to_number_zero [simp]: "to_number 0 = Num 0"
  by (simp add: to_number_def round_double_def floor_log2_zero)

lemma to_number_cases:
  "to_number x = Num (round_double x) \<or> (to_number x = Infinity \<and> 0 < round_double x)
   \<or> (to_number x = NegInfinity \<and> round_double x < 0)"
proof (cases "round_double x = 0")
  case True
  then show ?thesis by (simp add: to_number_def floor_log2_zero)
next
  case False
  then show ?thesis by (auto simp: to_number_def Let_def)
qed

lemma to_number_not_NaN [simp]: "to_number x \<noteq> NaN"
  using to_number_cases[of x] by auto

lemma positive_to_number: "positive (to_number x) \<longleftrightarrow> 0 < round_double x"
  using to_number_cases[of x] by auto

lemma to_number_nonneg: "0 \<le> x \<Longrightarrow> number_le (Num 0) (to_number x)"
  using to_number_cases[of x] round_double_nonneg[of x] by auto

lemma to_number_exact:
  assumes "\<bar>n\<bar> \<le> 2 ^ 53"
  shows "to_number (of_int n) = Num (of_int n)"
proof (cases "n = 0")
  case True
  then show ?thesis by simp
next
  case False
  let ?x = "\<bar>of_int n\<bar> :: rat"
  have x: "0 < ?x" using False by simp
  have "?x = of_int \<bar>n\<bar>" by simp
  also have "\<dots> \<le> of_int (2 ^ 53)" using assms by (simp only: of_int_le_iff)
  finally have "?x \<le> 2 powi 53" by simp
  with floor_log2_bounds(1)[OF x] have "2 powi floor_log2 ?x \<le> (2::rat) powi 53" by simp
  then have "floor_log2 ?x \<le> 53" by (simp only: p2_le_iff)
  then show ?thesis
    by (simp add: to_number_def round_double_of_int[OF assms])
qed

lemma to_number_int_integral: "integral (to_number (of_int n))"
proof -
  from round_double_int[of n] obtain z where "round_double (of_int n) = of_int z" by blast
  with to_number_cases[of "of_int n"] show ?thesis by auto
qed

lemma positive_to_number_int: "positive (to_number (of_int z)) \<longleftrightarrow> 0 < z"
proof
  assume "positive (to_number (of_int z))"
  then have "0 < round_double (of_int z)" by (simp only: positive_to_number)
  from round_double_sgn[OF this] show "0 < z" by simp
next
  assume "0 < z"
  then have "(1::rat) \<le> of_int z" by simp
  from round_double_ge_one[OF this] show "positive (to_number (of_int z))"
    by (simp add: positive_to_number)
qed

lemma integral_Num: "integral (Num x) \<Longrightarrow> \<exists>z. x = of_int z"
  by (metis integral.simps(1))

lemma positive_js_sub:
  assumes "integral a" and "integral b"
  shows "positive (js_sub a b) \<longleftrightarrow> \<not> number_le a b"
proof (cases a)
  case (Num x)
  with assms(1) obtain p where x: "x = of_int p" using integral_Num by blast
  show ?thesis
  proof (cases b)
    case (Num y)
    with assms(2) obtain q where y: "y = of_int q" using integral_Num by blast
    have "x - y = of_int (p - q)" by (simp add: x y)
    then have "positive (to_number (x - y)) \<longleftrightarrow> 0 < p - q"
      by (simp only: positive_to_number_int)
    then show ?thesis using \<open>a = Num x\<close> Num x y by auto
  qed (use Num assms in simp_all)
next
  case Infinity
  then show ?thesis using assms by (cases b) simp_all
next
  case NegInfinity
  then show ?thesis using assms by (cases b) simp_all
next
  case NaN
  then show ?thesis using assms by simp
qed

lemma number_le_total: "integral a \<Longrightarrow> integral b \<Longrightarrow> number_le a b \<or> number_le b a"
  by (cases a; cases b) auto

lemma number_le_trans: "number_le a b \<Longrightarrow> number_le b c \<Longrightarrow> number_le a c"
  by (cases a; cases b; cases c) auto

lemma number_le_refl: "a \<noteq> NaN \<Longrightarrow> number_le a a"
  by (cases a) auto

lemma floor_log2_ge:
  assumes "2 powi k \<le> x"
  shows "k \<le> floor_log2 x"
proof -
  have x: "0 < x" using p2_pos[of k] assms by (rule less_le_trans)
  from assms floor_log2_bounds(2)[OF x] have "2 powi k < (2::rat) powi (floor_log2 x + 1)" by simp
  then show ?thesis by (simp only: p2_less_iff)
qed

lemma floor_log2_le_imp:
  assumes "0 < x" and "k \<le> floor_log2 x"
  shows "2 powi k \<le> x"
proof -
  have "(2::rat) powi k \<le> 2 powi floor_log2 x" using assms(2) by (rule p2_mono)
  also have "\<dots> \<le> x" by (rule floor_log2_bounds(1)[OF assms(1)])
  finally show ?thesis .
qed

lemma to_number_Infinity_iff:
  "to_number x = Infinity \<longleftrightarrow> 2 powi 1024 \<le> round_double x"
proof
  assume "to_number x = Infinity"
  then have a: "1024 \<le> floor_log2 \<bar>round_double x\<bar>" and b: "0 < round_double x"
    by (auto simp: to_number_def Let_def split: if_splits)
  from b have "0 < \<bar>round_double x\<bar>" by simp
  from floor_log2_le_imp[OF this a] b show "2 powi 1024 \<le> round_double x" by simp
next
  assume a: "2 powi 1024 \<le> round_double x"
  have b: "0 < round_double x" using p2_pos[of 1024] a by (rule less_le_trans)
  then have "2 powi 1024 \<le> \<bar>round_double x\<bar>" using a by simp
  from floor_log2_ge[OF this] b show "to_number x = Infinity" by (simp add: to_number_def)
qed

lemma round_double_overflow:
  assumes "0 \<le> x"
  shows "2 powi 1024 \<le> round_double x \<longleftrightarrow> 2 powi 1024 - 2 powi 970 \<le> x"
proof
  assume y: "2 powi 1024 \<le> round_double x"
  show "2 powi 1024 - 2 powi 970 \<le> x"
  proof (rule ccontr)
    assume "\<not> 2 powi 1024 - 2 powi 970 \<le> x"
    then have lt: "x < 2 powi 1024 - 2 powi 970" by simp
    let ?D = "of_int (2 ^ 53 - 1) * 2 powi 971 :: rat"
    have d: "is_double ?D" by (intro double_intro) simp_all
    have "?D = 2 powi 53 * 2 powi 971 - 2 powi 971" by (simp add: algebra_simps)
    also have "(2::rat) powi 53 * 2 powi 971 = 2 powi 1024" by (simp add: p2_add[symmetric])
    finally have dv: "?D = 2 powi 1024 - 2 powi 971" .
    have h: "(2::rat) powi 971 = 2 * 2 powi 970"
      using p2_add[of 1 970] by simp
    have d0: "0 \<le> ?D" by simp
    from round_double_nearest[OF assms d d0] have "\<bar>round_double x - x\<bar> \<le> \<bar>?D - x\<bar>" .
    with y lt show False unfolding dv h by (auto simp: abs_if split: if_splits)
  qed
next
  assume a: "2 powi 1024 - 2 powi 970 \<le> x"
  show "2 powi 1024 \<le> round_double x"
  proof (cases "2 powi 1024 \<le> x")
    case True
    have "is_double (of_int (2 ^ 52) * 2 powi 972)" by (intro double_intro) simp_all
    moreover have "of_int (2 ^ 52) * 2 powi 972 = (2 powi 1024 :: rat)"
    proof -
      have "(2::rat) powi 52 * 2 powi 972 = 2 powi 1024" by (simp add: p2_add[symmetric])
      then show ?thesis by simp
    qed
    ultimately have "is_double (2 powi 1024)" by simp
    from round_double_ge[OF this _ True] show ?thesis by simp
  next
    case False
    then have up: "x < 2 powi (1023 + 1)" by simp
    have h: "(2::rat) powi 1024 = 2 * 2 powi 1023" using p2_add[of 1 1023] by simp
    have h2: "(2::rat) powi 970 < 2 powi 1023" by (rule p2_strict_mono) simp
    from a h h2 have lo: "2 powi 1023 \<le> x" by simp
    then have x: "0 < x" using p2_pos[of 1023] by (rule less_le_trans[rotated])
    from floor_log2_unique[OF lo up] x have e: "ulp_exp x = 971" by (simp add: ulp_exp_def)
    let ?q = "x / 2 powi 971"
    have q1: "2 powi 53 - 1 / 2 \<le> ?q"
    proof -
      have "(2 powi 53 - 1 / 2) * 2 powi 971 = (2 powi 53 * 2 powi 971 - 2 powi 971 / 2 :: rat)"
        by (simp add: algebra_simps)
      also have "(2::rat) powi 53 * 2 powi 971 = 2 powi 1024" by (simp add: p2_add[symmetric])
      also have "(2::rat) powi 971 / 2 = 2 powi 970" using p2_add[of 1 970] by simp
      finally have "(2 powi 53 - 1 / 2) * 2 powi 971 \<le> x" using a by simp
      then show ?thesis by (simp add: pos_le_divide_eq)
    qed
    have q2: "?q < 2 powi 53"
    proof -
      have "x < 2 powi 53 * 2 powi 971" using False by (simp add: p2_add[symmetric])
      then show ?thesis by (simp add: pos_divide_less_eq)
    qed
    have q1': "of_int (2 ^ 53 - 1) + 1 / 2 \<le> ?q" using q1 by simp
    have q2': "?q < of_int (2 ^ 53 - 1) + 1" using q2 by simp
    have fl: "\<lfloor>?q\<rfloor> = 2 ^ 53 - 1"
    proof (rule floor_unique)
      show "of_int (2 ^ 53 - 1) \<le> ?q" using q1' by linarith
      show "?q < of_int (2 ^ 53 - 1) + 1" by (rule q2')
    qed
    have odd: "odd (2 ^ 53 - 1 :: int)" by simp
    have "round_half_even ?q = 2 ^ 53"
      using q1' odd unfolding round_half_even_def Let_def fl by (auto simp: not_less)
    then have "round_double x = of_int (2 ^ 53) * 2 powi 971"
      by (simp only: round_double_pos[OF x] e)
    also have "\<dots> = 2 powi 53 * 2 powi 971" by simp
    also have "\<dots> = 2 powi 1024" by (simp add: p2_add[symmetric])
    finally show ?thesis by simp
  qed
qed

lemma to_number_Infinity:
  "0 \<le> x \<Longrightarrow> to_number x = Infinity \<longleftrightarrow> 2 ^ 1024 - 2 ^ 970 \<le> x"
  using round_double_overflow[of x] by (simp add: to_number_Infinity_iff)

section \<open>Years at the start of a label\<close>

lemma search_from_bol: "0 < p \<Longrightarrow> search_from (Seq Bol r) p s = None"
  by (induction s arbitrary: p) (simp_all add: match_at_def)

lemma js_match_bol:
  "js_match (Seq Bol r) s =
     (case rmatch r (MS 0 s []) of [] \<Rightarrow> None | m # ms \<Rightarrow> Some (0, m))"
  by (cases s) (simp_all add: js_match_def match_at_def search_from_bol split: list.splits)

lemma group_plus_then:
  assumes b: "\<And>s'. (ms_rest s' = [] \<or> in_cls cl (hd (ms_rest s'))) \<Longrightarrow> rmatch b s' = []"
  shows "rmatch (Seq (Group g (Plus cl)) b) s =
         (if 1 \<le> run_len cl (ms_rest s)
          then rmatch b (capture g s (advance (run_len cl (ms_rest s)) s)) else [])"
proof (cases "1 \<le> run_len cl (ms_rest s)")
  case False
  then show ?thesis by simp
next
  case True
  let ?n = "run_len cl (ms_rest s)"
  let ?f = "\<lambda>k. rmatch b (capture g s (advance k s))"
  have short: "?f k = []" if "k \<in> set (rev [1..<?n])" for k
  proof -
    from that have k: "k < ?n" by simp
    then have "k < length (ms_rest s)" using run_len_le[of cl "ms_rest s"] by simp
    then have "hd (ms_rest (capture g s (advance k s))) = ms_rest s ! k"
      by (simp add: hd_drop_conv_nth)
    with run_len_nth[OF k] show ?thesis by (intro b) simp
  qed
  have "rmatch (Seq (Group g (Plus cl)) b) s = concat (map ?f (rev [1..<Suc ?n]))"
    by (simp add: comp_def)
  also have "\<dots> = ?f ?n @ concat (map ?f (rev [1..<?n]))"
    using True by (simp only: upt_rev_top list.map concat.simps)
  also have "concat (map ?f (rev [1..<?n])) = []"
    by (rule concat_map_all_Nil) (rule short)
  finally show ?thesis using True by simp
qed

lemma year_tail_stuck:
  "ms_rest s' = [] \<or> in_cls (Cls [Dig]) (hd (ms_rest s')) \<Longrightarrow>
   rmatch (Seq (Opt (Lit lit_nen)) (Lit [58])) s' = []"
  by (cases "ms_rest s'") (auto simp: lit_nen_def is_digit_def)

lemma run_len_digits:
  assumes "list_all is_digit ds" and "t = [] \<or> \<not> is_digit (hd t)"
  shows "run_len (Cls [Dig]) (ds @ t) = length ds"
  using assms by (induction ds) (auto simp: run_len_def takeWhile_eq_Nil_iff neq_Nil_conv)

lemma year_tail_match:
  assumes "y = [] \<or> y = lit_nen"
  shows "\<exists>ms. rmatch (Seq (Opt (Lit lit_nen)) (Lit [58])) (MS p (y @ 58 # rest) c)
           = MS (p + length y + 1) rest c # ms"
  using assms by (auto simp: lit_nen_def)

lemma year_match_here:
  assumes ds: "digits ds" and y: "y = [] \<or> y = lit_nen"
  shows "\<exists>ms. rmatch (Seq (Group 1 (Plus (Cls [Dig]))) (Seq (Opt (Lit lit_nen)) (Lit [58])))
                 (MS p (ds @ y @ 58 # rest) c)
             = MS (p + length ds + length y + 1) rest ((1, ds) # c) # ms"
proof -
  let ?e = "ds @ y @ 58 # rest"
  let ?b = "Seq (Opt (Lit lit_nen)) (Lit [58])"
  let ?s = "MS p ?e c"
  have tl: "y @ 58 # rest = [] \<or> \<not> is_digit (hd (y @ 58 # rest))"
    using y by (auto simp: lit_nen_def is_digit_def)
  have "list_all is_digit ds" using ds by (simp add: digits_def)
  from run_len_digits[OF this tl] have n: "run_len (Cls [Dig]) (ms_rest ?s) = length ds"
    by simp
  have pos: "1 \<le> length ds" using ds by (cases ds) (auto simp: digits_def)
  have cap: "capture 1 ?s (advance (length ds) ?s) = MS (p + length ds) (y @ 58 # rest) ((1, ds) # c)"
    by simp
  have "rmatch (Seq (Group 1 (Plus (Cls [Dig]))) ?b) ?s
          = (if 1 \<le> run_len (Cls [Dig]) (ms_rest ?s)
             then rmatch ?b (capture 1 ?s (advance (run_len (Cls [Dig]) (ms_rest ?s)) ?s)) else [])"
    by (rule group_plus_then[OF year_tail_stuck])
  also have "\<dots> = rmatch ?b (capture 1 ?s (advance (length ds) ?s))"
    unfolding n using pos by (simp del: rmatch.simps)
  also have "\<dots> = rmatch ?b (MS (p + length ds) (y @ 58 # rest) ((1, ds) # c))"
    by (simp only: cap)
  finally have eq: "rmatch (Seq (Group 1 (Plus (Cls [Dig]))) ?b) ?s
          = rmatch ?b (MS (p + length ds) (y @ 58 # rest) ((1, ds) # c))" .
  from year_tail_match[OF y, of "p + length ds" rest "(1, ds) # c"]
  obtain ms where ms: "rmatch ?b (MS (p + length ds) (y @ 58 # rest) ((1, ds) # c))
      = MS (p + length ds + length y + 1) rest ((1, ds) # c) # ms" by blast
  show ?thesis
    by (rule exI[of _ ms]) (simp only: eq ms)
qed

lemma ad_match:
  assumes ds: "digits ds" and y: "y = [] \<or> y = lit_nen"
  shows "\<exists>m. js_match re_ad_year (ds @ y @ 58 # rest) = Some (0, m) \<and> group m 1 = Some ds"
proof -
  from year_match_here[OF assms, of 0 rest "[]"] obtain ms where
    "rmatch (Seq (Group 1 (Plus (Cls [Dig]))) (Seq (Opt (Lit lit_nen)) (Lit [58])))
                 (MS 0 (ds @ y @ 58 # rest) [])
             = MS (0 + length ds + length y + 1) rest [(1, ds)] # ms" by blast
  then show ?thesis
    by (simp add: re_ad_year_def js_match_bol group_def del: rmatch.simps)
qed

lemma bc_match:
  assumes ds: "digits ds" and y: "y = [] \<or> y = lit_nen"
  shows "\<exists>m. js_match re_bc_year ((lit_kigen @ lit_zen) @ ds @ y @ 58 # rest) = Some (0, m)
             \<and> group m 1 = Some ds"
proof -
  from year_match_here[OF assms, of "0 + length (lit_kigen @ lit_zen)" rest "[]"] obtain ms where
    "rmatch (Seq (Group 1 (Plus (Cls [Dig]))) (Seq (Opt (Lit lit_nen)) (Lit [58])))
                 (MS (0 + length (lit_kigen @ lit_zen)) (ds @ y @ 58 # rest) [])
             = MS (0 + length (lit_kigen @ lit_zen) + length ds + length y + 1) rest [(1, ds)] # ms"
    by blast
  then show ?thesis
    unfolding re_bc_year_def js_match_bol lit_match
    by (simp add: group_def del: rmatch.simps)
qed

lemma bc_no_match:
  assumes "e = [] \<or> hd e \<noteq> 32000"
  shows "js_match re_bc_year e = None"
  using assms by (cases e) (auto simp: re_bc_year_def js_match_bol lit_kigen_def lit_zen_def)

lemma ad_no_match:
  assumes "e = [] \<or> \<not> is_digit (hd e)"
  shows "js_match re_ad_year e = None"
  using assms by (cases e) (auto simp: re_ad_year_def js_match_bol run_len_def)

lemma extractYear_ad:
  assumes "digits ds" and "y = [] \<or> y = lit_nen"
  shows "extractYear (ds @ y @ 58 # rest) = parseInt ds"
proof -
  from assms(1) have "hd (ds @ y @ 58 # rest) \<noteq> 32000"
    by (cases ds) (auto simp: digits_def is_digit_def)
  then have "js_match re_bc_year (ds @ y @ 58 # rest) = None"
    by (intro bc_no_match) simp
  moreover from ad_match[OF assms] obtain m where
    "js_match re_ad_year (ds @ y @ 58 # rest) = Some (0, m)" "group m 1 = Some ds" by blast
  ultimately show ?thesis by (simp add: extractYear_def dollar_def)
qed

lemma extractYear_bc:
  assumes "digits ds" and "y = [] \<or> y = lit_nen"
  shows "extractYear (lit_kigen @ lit_zen @ ds @ y @ 58 # rest) = js_neg (parseInt ds)"
proof -
  from bc_match[OF assms] obtain m where
    "js_match re_bc_year ((lit_kigen @ lit_zen) @ ds @ y @ 58 # rest) = Some (0, m)"
    "group m 1 = Some ds" by blast
  then show ?thesis by (simp add: extractYear_def dollar_def)
qed

lemma extractYear_fallback:
  assumes "e = [] \<or> (hd e \<noteq> 32000 \<and> \<not> is_digit (hd e))"
  shows "extractYear e = Num 0"
  using assms bc_no_match[of e] ad_no_match[of e] by (auto simp: extractYear_def)

subsection \<open>The labels that the year patterns match\<close>

lemma take_run_digits: "k \<le> run_len (Cls [Dig]) r \<Longrightarrow> list_all is_digit (take k r)"
proof (induction r arbitrary: k)
  case Nil
  then show ?case by simp
next
  case (Cons x r)
  then show ?case by (cases k) (auto simp: run_len_Cons split: if_splits)
qed

lemma seq_mem:
  "m \<in> set (rmatch (Seq a b) s) \<longleftrightarrow> (\<exists>s' \<in> set (rmatch a s). m \<in> set (rmatch b s'))"
  by auto

lemma plus_mem:
  "s' \<in> set (rmatch (Plus cl) s) \<longleftrightarrow>
     (\<exists>k. 1 \<le> k \<and> k \<le> run_len cl (ms_rest s) \<and> s' = advance k s)"
  by auto

lemma opt_lit_mem:
  "m \<in> set (rmatch (Opt (Lit l)) s') \<longleftrightarrow>
     (m = s' \<or> (take (length l) (ms_rest s') = l \<and> m = advance (length l) s'))"
  by auto

lemma lit_mem:
  "m \<in> set (rmatch (Lit l) s) \<longleftrightarrow> (take (length l) (ms_rest s) = l \<and> m = advance (length l) s)"
  by auto

lemma group_mem:
  "s1 \<in> set (rmatch (Group g r) s) \<longleftrightarrow> (\<exists>s2 \<in> set (rmatch r s). s1 = capture g s s2)"
  by auto

lemma take_one: "take 1 xs = [a] \<Longrightarrow> \<exists>rest. xs = a # rest"
  by (cases xs) auto

lemma year_prefix_form:
  assumes "m \<in> set (rmatch (Seq (Group 1 (Plus (Cls [Dig]))) (Seq (Opt (Lit lit_nen)) (Lit [58])))
                        (MS p e c))"
  shows "\<exists>ds y rest. digits ds \<and> (y = [] \<or> y = lit_nen) \<and> e = ds @ y @ 58 # rest"
proof -
  from assms obtain s1 where s1: "s1 \<in> set (rmatch (Group 1 (Plus (Cls [Dig]))) (MS p e c))"
      and m: "m \<in> set (rmatch (Seq (Opt (Lit lit_nen)) (Lit [58])) s1)"
    unfolding seq_mem by blast
  from s1 obtain s2 where s2: "s2 \<in> set (rmatch (Plus (Cls [Dig])) (MS p e c))"
      and c1: "s1 = capture 1 (MS p e c) s2"
    unfolding group_mem by blast
  from s2 obtain k where k: "1 \<le> k" "k \<le> run_len (Cls [Dig]) e" "s2 = advance k (MS p e c)"
    unfolding plus_mem by (auto simp del: rmatch.simps)
  define t where "t = drop k e"
  have r1: "ms_rest s1 = t" using c1 k(3) by (simp add: t_def)
  from m obtain s3 where s3: "s3 \<in> set (rmatch (Opt (Lit lit_nen)) s1)"
      and m': "m \<in> set (rmatch (Lit [58]) s3)"
    unfolding seq_mem by blast
  from m' have colon: "take 1 (ms_rest s3) = [58]" unfolding lit_mem by simp
  have kl: "k \<le> length e" using k(2) run_len_le[of "Cls [Dig]" e] by simp
  let ?ds = "take k e"
  have ds: "digits ?ds"
    using k kl take_run_digits[OF k(2)] by (cases e) (auto simp: digits_def)
  have e: "e = ?ds @ t" by (simp add: t_def)
  from s3 consider "s3 = s1" | "take 1 (ms_rest s1) = lit_nen" "s3 = advance 1 s1"
    unfolding opt_lit_mem by (auto simp: lit_nen_def)
  then show ?thesis
  proof cases
    case 1
    with colon r1 have "take 1 t = [58]" by simp
    from take_one[OF this] obtain rest where "t = 58 # rest" by blast
    with e have "e = ?ds @ [] @ 58 # rest" by simp
    with ds show ?thesis by blast
  next
    case 2
    from 2(1) r1 have "take 1 t = [24180]" by (simp add: lit_nen_def)
    from take_one[OF this] obtain t' where t': "t = 24180 # t'" by blast
    from 2(2) r1 t' have "ms_rest s3 = t'" by simp
    with colon have "take 1 t' = [58]" by simp
    from take_one[OF this] obtain rest where "t' = 58 # rest" by blast
    with e t' have "e = ?ds @ lit_nen @ 58 # rest" by (simp add: lit_nen_def)
    with ds show ?thesis by blast
  qed
qed

lemma ad_match_form:
  assumes "js_match re_ad_year e = Some (i, m)"
  shows "\<exists>ds y rest. digits ds \<and> (y = [] \<or> y = lit_nen) \<and> e = ds @ y @ 58 # rest"
proof -
  from assms have "m \<in> set (rmatch (Seq (Group 1 (Plus (Cls [Dig])))
                                 (Seq (Opt (Lit lit_nen)) (Lit [58]))) (MS 0 e []))"
    unfolding re_ad_year_def js_match_bol by (auto split: list.splits simp del: rmatch.simps)
  then show ?thesis by (rule year_prefix_form)
qed

lemma bc_match_form:
  assumes "js_match re_bc_year e = Some (i, m)"
  shows "\<exists>ds y rest. digits ds \<and> (y = [] \<or> y = lit_nen)
           \<and> e = lit_kigen @ lit_zen @ ds @ y @ 58 # rest"
proof -
  let ?l = "lit_kigen @ lit_zen"
  let ?R = "Seq (Group 1 (Plus (Cls [Dig]))) (Seq (Opt (Lit lit_nen)) (Lit [58]))"
  from assms have "m \<in> set (rmatch (Seq (Lit ?l) ?R) (MS 0 e []))"
    unfolding re_bc_year_def js_match_bol by (auto split: list.splits simp del: rmatch.simps)
  then obtain s1 where s1: "s1 \<in> set (rmatch (Lit ?l) (MS 0 e []))" and m: "m \<in> set (rmatch ?R s1)"
    unfolding seq_mem by blast
  from s1 have t: "take (length ?l) e = ?l" and s1v: "s1 = MS (length ?l) (drop (length ?l) e) []"
    unfolding lit_mem by simp_all
  from m year_prefix_form[of m "length ?l" "drop (length ?l) e" "[]"] obtain ds y rest where
    f: "digits ds" "y = [] \<or> y = lit_nen" "drop (length ?l) e = ds @ y @ 58 # rest"
    unfolding s1v by blast
  have "e = take (length ?l) e @ drop (length ?l) e" by simp
  with t f(3) have "e = lit_kigen @ lit_zen @ ds @ y @ 58 # rest" by simp
  with f show ?thesis by blast
qed

lemma extractYear_unparsed:
  assumes "\<forall>ds y rest. digits ds \<and> (y = [] \<or> y = lit_nen)
             \<longrightarrow> e \<noteq> ds @ y @ 58 # rest \<and> e \<noteq> lit_kigen @ lit_zen @ ds @ y @ 58 # rest"
  shows "extractYear e = Num 0"
proof -
  have "js_match re_bc_year e = None"
  proof (cases "js_match re_bc_year e")
    case (Some a)
    then obtain i m where "js_match re_bc_year e = Some (i, m)" by (cases a) simp
    from bc_match_form[OF this] assms show ?thesis by blast
  qed simp
  moreover have "js_match re_ad_year e = None"
  proof (cases "js_match re_ad_year e")
    case (Some a)
    then obtain i m where "js_match re_ad_year e = Some (i, m)" by (cases a) simp
    from ad_match_form[OF this] assms show ?thesis by blast
  qed simp
  ultimately show ?thesis by (simp add: extractYear_def)
qed

section \<open>Chronological ordering\<close>

lemma digits_value_nonneg_aux:
  "list_all is_digit ds \<Longrightarrow> 0 \<le> a \<Longrightarrow> 0 \<le> foldl (\<lambda>a c. 10 * a + (c - 48)) a ds"
  by (induction ds arbitrary: a) (auto simp: is_digit_def)

lemma digits_value_nonneg: "digits ds \<Longrightarrow> 0 \<le> digits_value ds"
  by (simp add: digits_value_def digits_def digits_value_nonneg_aux)

lemma digits_value_zero_aux:
  "list_all is_digit ds \<Longrightarrow> 0 \<le> a \<Longrightarrow>
   foldl (\<lambda>a c. 10 * a + (c - 48)) a ds = 0 \<longleftrightarrow> (a = 0 \<and> list_all (\<lambda>d. d = 48) ds)"
proof (induction ds arbitrary: a)
  case Nil
  then show ?case by simp
next
  case (Cons d ds)
  then have d: "48 \<le> d" "d \<le> 57" by (simp_all add: is_digit_def)
  with Cons.prems have nn: "0 \<le> 10 * a + (d - 48)" by simp
  have z: "10 * a + (d - 48) = 0 \<longleftrightarrow> a = 0 \<and> d = 48"
    using Cons.prems(2) d by arith
  from Cons.prems have "list_all is_digit ds" by simp
  from Cons.IH[OF this nn] z show ?case by auto
qed

lemma digits_value_zero: "digits ds \<Longrightarrow> digits_value ds = 0 \<longleftrightarrow> list_all (\<lambda>d. d = 48) ds"
  by (simp add: digits_value_def digits_def digits_value_zero_aux)

lemma parseInt_nonneg: "digits ds \<Longrightarrow> number_le (Num 0) (parseInt ds)"
  unfolding parseInt_def by (rule to_number_nonneg) (simp add: digits_value_nonneg)

lemma parseInt_zero:
  assumes "digits ds"
  shows "parseInt ds = Num 0 \<longleftrightarrow> list_all (\<lambda>d. d = 48) ds"
proof -
  have "to_number (of_int (digits_value ds)) = Num 0 \<longleftrightarrow> digits_value ds = 0"
  proof
    assume z: "to_number (of_int (digits_value ds)) = Num 0"
    show "digits_value ds = 0"
    proof (rule ccontr)
      assume "digits_value ds \<noteq> 0"
      with digits_value_nonneg[OF assms] have "0 < digits_value ds" by simp
      then have "positive (to_number (of_int (digits_value ds)))"
        by (simp only: positive_to_number_int)
      with z show False by simp
    qed
  next
    assume "digits_value ds = 0"
    then show "to_number (of_int (digits_value ds)) = Num 0" by simp
  qed
  then show ?thesis by (simp add: parseInt_def digits_value_zero[OF assms])
qed

lemma parseInt_exact:
  assumes "digits ds" and "digits_value ds \<le> 2 ^ 53"
  shows "parseInt ds = Num (of_int (digits_value ds))"
  unfolding parseInt_def using assms(2) digits_value_nonneg[OF assms(1)]
  by (intro to_number_exact) simp

lemma parseInt_nearest:
  assumes "digits ds" and "parseInt ds = Num v"
  shows "is_double v"
    and "is_double d \<Longrightarrow> 0 \<le> d \<Longrightarrow>
         \<bar>v - of_int (digits_value ds)\<bar> \<le> \<bar>d - of_int (digits_value ds)\<bar>"
proof -
  from assms(2) to_number_cases[of "of_int (digits_value ds)"]
  have v: "v = round_double (of_int (digits_value ds))" by (auto simp: parseInt_def)
  show "is_double v" unfolding v by (rule is_double_round_double)
  show "\<bar>v - of_int (digits_value ds)\<bar> \<le> \<bar>d - of_int (digits_value ds)\<bar>"
    if "is_double d" "0 \<le> d"
    unfolding v using digits_value_nonneg[OF assms(1)] that
    by (intro round_double_nearest) simp_all
qed

lemma parseInt_Infinity:
  assumes "digits ds"
  shows "parseInt ds = Infinity \<longleftrightarrow> 2 ^ 1024 - 2 ^ 970 \<le> digits_value ds"
proof -
  have "(2::rat) ^ 1024 - 2 ^ 970 = of_int (2 ^ 1024 - 2 ^ 970)" by simp
  then have "(2::rat) ^ 1024 - 2 ^ 970 \<le> of_int (digits_value ds)
               \<longleftrightarrow> 2 ^ 1024 - 2 ^ 970 \<le> digits_value ds"
    by (simp only: of_int_le_iff)
  moreover have "(0::rat) \<le> of_int (digits_value ds)"
    using digits_value_nonneg[OF assms] by simp
  ultimately show ?thesis unfolding parseInt_def by (simp only: to_number_Infinity)
qed

lemma js_neg_nonpos: "number_le (Num 0) a \<Longrightarrow> number_le (js_neg a) (Num 0)"
  by (cases a) auto

lemma js_neg_zero: "js_neg a = Num 0 \<longleftrightarrow> a = Num 0"
  by (cases a) auto

lemma integral_js_neg: "integral a \<Longrightarrow> integral (js_neg a)"
proof (cases a)
  case (Num x)
  assume "integral a"
  with Num have "of_int \<lfloor>x\<rfloor> = x" by simp
  then have "of_int \<lfloor>- x\<rfloor> = - x" by (metis floor_of_int of_int_minus)
  with Num show ?thesis by simp
qed simp_all

lemma integral_extractYear: "integral (extractYear item)"
  by (auto simp: extractYear_def parseInt_def to_number_int_integral integral_js_neg
           split: option.splits)

lemma integral_not_NaN: "integral a \<Longrightarrow> a \<noteq> NaN"
  by auto

lemma year_order:
  "positive (js_sub (extractYear a) (extractYear b))
     \<longleftrightarrow> \<not> number_le (extractYear a) (extractYear b)"
  by (rule positive_js_sub[OF integral_extractYear integral_extractYear])

lemma set_insert_by: "set (insert_by cmp x ys) = insert x (set ys)"
  by (induction ys) auto

lemma mset_insert_by: "mset (insert_by cmp x ys) = add_mset x (mset ys)"
  by (induction ys) auto

lemma mset_array_sort: "mset (array_sort cmp xs) = mset xs"
  unfolding array_sort_def by (induction xs) (simp_all add: mset_insert_by)

lemma sorted_insert_by_year:
  assumes "sorted_wrt (\<lambda>a b. number_le (extractYear a) (extractYear b)) ys"
  shows "sorted_wrt (\<lambda>a b. number_le (extractYear a) (extractYear b))
           (insert_by (\<lambda>a b. js_sub (extractYear a) (extractYear b)) x ys)"
  using assms
proof (induction ys)
  case Nil
  then show ?case by simp
next
  case (Cons y ys)
  show ?case
  proof (cases "number_le (extractYear x) (extractYear y)")
    case True
    then have "number_le (extractYear x) (extractYear z)" if "z \<in> set ys" for z
      using Cons.prems that number_le_trans by auto
    with True Cons.prems show ?thesis by (simp add: year_order)
  next
    case False
    with number_le_total[OF integral_extractYear integral_extractYear, of x y]
    have "number_le (extractYear y) (extractYear x)" by simp
    with False Cons show ?thesis by (simp add: year_order set_insert_by)
  qed
qed

lemma filter_insert_by_year:
  "filter (\<lambda>z. extractYear z = k) (insert_by (\<lambda>a b. js_sub (extractYear a) (extractYear b)) x ys)
     = filter (\<lambda>z. extractYear z = k) (x # ys)"
proof (induction ys)
  case Nil
  then show ?case by simp
next
  case (Cons y ys)
  show ?case
  proof (cases "number_le (extractYear x) (extractYear y)")
    case True
    then show ?thesis by (simp add: year_order)
  next
    case False
    have "extractYear y \<noteq> extractYear x"
    proof
      assume "extractYear y = extractYear x"
      with False number_le_refl[OF integral_not_NaN[OF integral_extractYear[of x]]]
      show False by simp
    qed
    with False Cons show ?thesis by (auto simp: year_order)
  qed
qed

lemma sortByYear_Cons:
  "sortByYear (x # xs) = insert_by (\<lambda>a b. js_sub (extractYear a) (extractYear b)) x (sortByYear xs)"
  by (simp add: sortByYear_def array_sort_def)

lemma sortByYear_sorted:
  "sorted_wrt (\<lambda>a b. number_le (extractYear a) (extractYear b)) (sortByYear items)"
proof (induction items)
  case Nil
  then show ?case by (simp add: sortByYear_def array_sort_def)
next
  case (Cons x xs)
  then show ?case unfolding sortByYear_Cons by (rule sorted_insert_by_year)
qed

lemma sortByYear_mset: "mset (sortByYear items) = mset items"
  by (simp add: sortByYear_def mset_array_sort)

lemma sortByYear_stable:
  "filter (\<lambda>x. extractYear x = k) (sortByYear items) = filter (\<lambda>x. extractYear x = k) items"
proof (induction items)
  case Nil
  then show ?case by (simp add: sortByYear_def array_sort_def)
next
  case (Cons x xs)
  then show ?case unfolding sortByYear_Cons filter_insert_by_year by simp
qed

text \<open>
  Claim C2, as amended. For every list of labels, \<open>sortByYear\<close> returns the same labels
  (\<open>mset\<close>) in ascending order of \<open>extractYear\<close>, labels of equal year keeping
  their order. \<open>extractYear\<close> reads the year from the start of the label. Digits
  \<open>ds\<close>, an optional year sign and a colon give the number \<open>parseInt ds\<close>, which is
  never negative and is zero exactly when all the digits are zeros; it is the integer
  that the digits denote if that is at most \<open>2^53\<close>, it is \<open>Infinity\<close> exactly from
  \<open>2^1024 - 2^970\<close> on, and if it is finite it is a double as near to that integer
  as any double. After the before-epoch prefix the same gives
  the negated number, which is never positive; it is negative unless all the digits are
  zeros, when it is zero. Every other label - one that does not start with digits, an
  optional year sign and a colon, with or without the prefix - gives 0. In particular
  \<open>['1990nen: A', 'kigenzen500nen: B', '5nen: C']\<close> is sorted to B, C, A.
\<close>

theorem sortByYear_sorts:
  "sorted_wrt (\<lambda>a b. number_le (extractYear a) (extractYear b)) (sortByYear items)
   \<and> mset (sortByYear items) = mset items
   \<and> (\<forall>k. filter (\<lambda>x. extractYear x = k) (sortByYear items)
            = filter (\<lambda>x. extractYear x = k) items)
   \<and> (digits ds \<and> (y = [] \<or> y = lit_nen) \<longrightarrow>
         extractYear (ds @ y @ 58 # rest) = parseInt ds
         \<and> extractYear (lit_kigen @ lit_zen @ ds @ y @ 58 # rest) = js_neg (parseInt ds)
         \<and> number_le (Num 0) (parseInt ds)
         \<and> number_le (js_neg (parseInt ds)) (Num 0)
         \<and> (parseInt ds = Num 0 \<longleftrightarrow> list_all (\<lambda>d. d = 48) ds)
         \<and> (js_neg (parseInt ds) = Num 0 \<longleftrightarrow> list_all (\<lambda>d. d = 48) ds)
         \<and> (digits_value ds \<le> 2 ^ 53 \<longrightarrow> parseInt ds = Num (of_int (digits_value ds)))
         \<and> (parseInt ds = Infinity \<longleftrightarrow> 2 ^ 1024 - 2 ^ 970 \<le> digits_value ds)
         \<and> (\<forall>v. parseInt ds = Num v \<longrightarrow>
               is_double v
               \<and> (\<forall>d. is_double d \<and> 0 \<le> d \<longrightarrow>
                      \<bar>v - of_int (digits_value ds)\<bar> \<le> \<bar>d - of_int (digits_value ds)\<bar>)))
   \<and> ((\<forall>ds y rest. digits ds \<and> (y = [] \<or> y = lit_nen)
           \<longrightarrow> e \<noteq> ds @ y @ 58 # rest \<and> e \<noteq> lit_kigen @ lit_zen @ ds @ y @ 58 # rest)
        \<longrightarrow> extractYear e = Num 0)
   \<and> sortByYear [[49, 57, 57, 48, 24180, 58, 32, 65],
                  [32000, 20803, 21069, 53, 48, 48, 24180, 58, 32, 66],
                  [53, 24180, 58, 32, 67]]
       = [[32000, 20803, 21069, 53, 48, 48, 24180, 58, 32, 66],
          [53, 24180, 58, 32, 67],
          [49, 57, 57, 48, 24180, 58, 32, 65]]"
proof (intro conjI allI impI)
  show "sorted_wrt (\<lambda>a b. number_le (extractYear a) (extractYear b)) (sortByYear items)"
    by (rule sortByYear_sorted)
  show "mset (sortByYear items) = mset items"
    by (rule sortByYear_mset)
  show "filter (\<lambda>x. extractYear x = k) (sortByYear items)
            = filter (\<lambda>x. extractYear x = k) items" for k
    by (rule sortByYear_stable)
next
  assume "digits ds \<and> (y = [] \<or> y = lit_nen)"
  then show "extractYear (lit_kigen @ lit_zen @ ds @ y @ 58 # rest) = js_neg (parseInt ds)"
    by (intro extractYear_bc) simp_all
next
  assume "digits ds \<and> (y = [] \<or> y = lit_nen)"
  then show "extractYear (ds @ y @ 58 # rest) = parseInt ds"
    by (intro extractYear_ad) simp_all
next
  assume "digits ds \<and> (y = [] \<or> y = lit_nen)"
  then show "number_le (Num 0) (parseInt ds)" by (intro parseInt_nonneg) simp
next
  assume "digits ds \<and> (y = [] \<or> y = lit_nen)"
  then show "number_le (js_neg (parseInt ds)) (Num 0)"
    by (intro js_neg_nonpos parseInt_nonneg) simp
next
  assume "digits ds \<and> (y = [] \<or> y = lit_nen)"
  then show "parseInt ds = Num 0 \<longleftrightarrow> list_all (\<lambda>d. d = 48) ds"
    by (intro parseInt_zero) simp
next
  assume "digits ds \<and> (y = [] \<or> y = lit_nen)"
  then show "js_neg (parseInt ds) = Num 0 \<longleftrightarrow> list_all (\<lambda>d. d = 48) ds"
    by (simp add: js_neg_zero parseInt_zero)
next
  assume "digits ds \<and> (y = [] \<or> y = lit_nen)" and "digits_value ds \<le> 2 ^ 53"
  then show "parseInt ds = Num (of_int (digits_value ds))"
    by (intro parseInt_exact) simp_all
next
  assume "digits ds \<and> (y = [] \<or> y = lit_nen)"
  then show "parseInt ds = Infinity \<longleftrightarrow> 2 ^ 1024 - 2 ^ 970 \<le> digits_value ds"
    by (intro parseInt_Infinity) simp
next
  fix v
  assume a: "digits ds \<and> (y = [] \<or> y = lit_nen)" "parseInt ds = Num v"
  then show "is_double v" by (intro parseInt_nearest(1)[of ds]) simp_all
  fix d
  assume "is_double d \<and> 0 \<le> d"
  with a show "\<bar>v - of_int (digits_value ds)\<bar> \<le> \<bar>d - of_int (digits_value ds)\<bar>"
    by (intro parseInt_nearest(2)) simp_all
next
  assume "\<forall>ds y rest. digits ds \<and> (y = [] \<or> y = lit_nen)
           \<longrightarrow> e \<noteq> ds @ y @ 58 # rest \<and> e \<noteq> lit_kigen @ lit_zen @ ds @ y @ 58 # rest"
  then show "extractYear e = Num 0" by (rule extractYear_unparsed)
next
  show "sortByYear [[49, 57, 57, 48, 24180, 58, 32, 65],
                  [32000, 20803, 21069, 53, 48, 48, 24180, 58, 32, 66],
                  [53, 24180, 58, 32, 67]]
       = [[32000, 20803, 21069, 53, 48, 48, 24180, 58, 32, 66],
          [53, 24180, 58, 32, 67],
          [49, 57, 57, 48, 24180, 58, 32, 65]]"
    by code_simp
qed

text \<open>The theorem at the three labels of the example and at the unparseable label
  \<open>'AB'\<close>: the years are -500, 5, 1990 and 0.\<close>

theorem sortByYear_sorts_witness:
  "digits [53, 48, 48]
   \<and> extractYear (lit_kigen @ lit_zen @ [53, 48, 48] @ lit_nen @ 58 # [32, 66]) = Num (- 500)
   \<and> extractYear ([53] @ lit_nen @ 58 # [32, 67]) = Num 5
   \<and> extractYear [49, 57, 57, 48, 24180, 58, 32, 65] = Num 1990
   \<and> extractYear [65, 66] = Num 0"
proof -
  have d: "digits [53, 48, 48]" "digits [53]" by (simp_all add: digits_def is_digit_def)
  have v: "digits_value [53, 48, 48] = 500" "digits_value [53] = 5"
    by (simp_all add: digits_value_def)
  have n: "\<forall>ds y rest. digits ds \<and> (y = [] \<or> y = lit_nen)
             \<longrightarrow> [65, 66] \<noteq> ds @ y @ 58 # rest
                 \<and> [65, 66] \<noteq> lit_kigen @ lit_zen @ ds @ y @ 58 # rest"
  proof (intro allI impI)
    fix ds y rest
    assume "digits ds \<and> (y = [] \<or> y = lit_nen)"
    then obtain c cs where "ds = c # cs" "is_digit c" by (cases ds) (auto simp: digits_def)
    then show "[65, 66] \<noteq> ds @ y @ 58 # rest
                 \<and> [65, 66] \<noteq> lit_kigen @ lit_zen @ ds @ y @ 58 # rest"
      by (auto simp: is_digit_def lit_kigen_def)
  qed
  have a: "extractYear [49, 57, 57, 48, 24180, 58, 32, 65] = Num 1990" by code_simp
  note t1 = sortByYear_sorts[of "[]" "[53, 48, 48]" lit_nen "[32, 66]" "[65, 66]"]
  from t1 d have "parseInt [53, 48, 48] = Num (of_int (digits_value [53, 48, 48]))"
    by (simp add: v)
  then have p1: "parseInt [53, 48, 48] = Num 500" by (simp add: v)
  from t1 d p1
  have 1: "extractYear (lit_kigen @ lit_zen @ [53, 48, 48] @ lit_nen @ 58 # [32, 66]) = Num (- 500)"
    by simp
  from t1 n have 3: "extractYear [65, 66] = Num 0" by blast
  note t2 = sortByYear_sorts[of "[]" "[53]" lit_nen "[32, 67]" "[65, 66]"]
  from t2 d have "parseInt [53] = Num (of_int (digits_value [53]))" by (simp add: v)
  then have p2: "parseInt [53] = Num 5" by (simp add: v)
  from t2 d p2 have 2: "extractYear ([53] @ lit_nen @ 58 # [32, 67]) = Num 5" by simp
  from 1 2 3 d a show ?thesis by simp
qed

text \<open>
  Claim C2 as stated fails where it calls the year after the before-epoch prefix
  negative: the label \<open>'kigenzen0nen: B'\<close> has the year 0, which is not below 0, and
  it is not sorted before the label \<open>'0nen: A'\<close>.
\<close>

theorem before_epoch_zero_counterexample:
  "extractYear [32000, 20803, 21069, 48, 24180, 58, 32, 66] = Num 0
   \<and> number_le (Num 0) (extractYear [32000, 20803, 21069, 48, 24180, 58, 32, 66])
   \<and> sortByYear [[48, 24180, 58, 32, 65], [32000, 20803, 21069, 48, 24180, 58, 32, 66]]
       = [[48, 24180, 58, 32, 65], [32000, 20803, 21069, 48, 24180, 58, 32, 66]]"
  by code_simp

section \<open>Birth records carry a parseable year\<close>

lemma rmatch_caps_frame:
  "m \<in> set (rmatch r s) \<Longrightarrow> g \<notin> groups_of r \<Longrightarrow> map_of (ms_caps m) g = map_of (ms_caps s) g"
proof (induction r arbitrary: s m)
  case (Seq a b)
  from Seq.prems obtain s1 where "s1 \<in> set (rmatch a s)" "m \<in> set (rmatch b s1)" by auto
  with Seq.IH[of s1 s] Seq.IH(2)[of m s1] Seq.prems(2) show ?case by simp
next
  case (Group g' a)
  then show ?case by auto
next
  case (Ahead a)
  then show ?case by (auto split: list.splits)
qed (auto split: if_splits list.splits)

lemma for_lines_set:
  "set (for_lines body lines acc) = set acc \<union> {e. \<exists>l \<in> set lines. body l = Some e}"
  by (induction lines arbitrary: acc) (auto split: option.splits)

lemma search_from_mem:
  "search_from r p s = Some (i, m) \<Longrightarrow> \<exists>p' t. m \<in> set (rmatch r (MS p' t []))"
  by (induction s arbitrary: p) (auto split: option.splits dest: match_at_mem)

lemma js_match_mem:
  "js_match r s = Some (i, m) \<Longrightarrow> \<exists>p' t. m \<in> set (rmatch r (MS p' t []))"
  unfolding js_match_def by (rule search_from_mem)

lemma person_of_line_Some:
  "person_of_line line_re clean line = Some e \<Longrightarrow>
   \<exists>i m info. js_match line_re line = Some (i, m) \<and> e = dollar 1 m @ [58, 32] @ info"
  by (auto simp: person_of_line_def Let_def lit_colon_space_def split: option.splits if_splits)

lemma year_capture:
  assumes "m \<in> set (rmatch re_year s)"
  shows "\<exists>ds y. digits ds \<and> (y = [] \<or> y = lit_nen)
           \<and> take (ms_pos m - ms_pos s) (ms_rest s) = ds @ y"
proof -
  from assms obtain s' where s': "s' \<in> set (rmatch (Plus (Cls [Dig])) s)"
      and m: "m \<in> set (rmatch (Opt (Lit lit_nen)) s')"
    unfolding re_year_def seq_mem by blast
  from s' obtain k where k: "1 \<le> k" "k \<le> run_len (Cls [Dig]) (ms_rest s)" "s' = advance k s"
    unfolding plus_mem by blast
  have kl: "k \<le> length (ms_rest s)" using k(2) run_len_le[of "Cls [Dig]" "ms_rest s"] by simp
  let ?ds = "take k (ms_rest s)"
  have ds: "digits ?ds"
    using k kl take_run_digits[OF k(2)] by (cases "ms_rest s") (auto simp: digits_def)
  from m consider "m = s'" | "m = advance 1 s'" "take 1 (ms_rest s') = lit_nen"
    unfolding opt_lit_mem by (auto simp: lit_nen_def)
  then show ?thesis
  proof cases
    case 1
    with k have "take (ms_pos m - ms_pos s) (ms_rest s) = ?ds @ []" by simp
    with ds show ?thesis by blast
  next
    case 2
    have "take (k + 1) (ms_rest s) = ?ds @ take 1 (drop k (ms_rest s))"
      by (rule take_add)
    with 2 k have "take (ms_pos m - ms_pos s) (ms_rest s) = ?ds @ lit_nen" by simp
    with ds show ?thesis by blast
  qed
qed

lemma person_line_group1:
  assumes "m \<in> set (rmatch (re_person_line mark) s0)"
  shows "\<exists>ds y. digits ds \<and> (y = [] \<or> y = lit_nen) \<and> group m 1 = Some (ds @ y)"
proof -
  let ?post = "re_dash (Seq (Group 2 (LazyPlus Dot))
             (Seq (Opt (Seq (Lit lit_touten) (Group 3 (LazyPlus Dot))))
               (Alt (Lit [40, mark]) (Alt (Lit (lit_fw_lparen @ [mark])) Eol))))"
  have "re_person_line mark = Seq re_bullet (Seq (Group 1 re_year) ?post)"
    by (simp add: re_person_line_def)
  with assms have "m \<in> set (rmatch (Seq re_bullet (Seq (Group 1 re_year) ?post)) s0)"
    by simp
  then obtain s1 sg where s1: "s1 \<in> set (rmatch re_bullet s0)"
      and sg: "sg \<in> set (rmatch (Group 1 re_year) s1)"
      and m0: "m \<in> set (rmatch ?post sg)"
    unfolding seq_mem by blast
  from sg obtain s2 where s2: "s2 \<in> set (rmatch re_year s1)" and "sg = capture 1 s1 s2"
    by auto
  with m0 have m: "m \<in> set (rmatch ?post (capture 1 s1 s2))" by simp
  have "1 \<notin> groups_of ?post" by (simp add: re_dash_def)
  from rmatch_caps_frame[OF m this]
  have "group m 1 = Some (take (ms_pos s2 - ms_pos s1) (ms_rest s1))"
    by (simp add: group_def)
  with year_capture[OF s2] show ?thesis by auto
qed

text \<open>
  Claim C10, as amended. Every string that \<open>parseWikipediaContent\<close> puts in the
  births list starts with digits \<open>ds\<close>, an optional year sign, a colon and a space. On
  it the before-epoch pattern of \<open>extractYear\<close> fails and the other pattern matches
  with \<open>ds\<close> as its group, so \<open>extractYear\<close> returns the number \<open>parseInt ds\<close> and
  the fallback for an unparseable year is never taken. That number is never negative
  and it is zero exactly when all the digits are zeros. It is the integer that the
  digits denote if that is at most \<open>2^53\<close>; it is \<open>Infinity\<close> exactly from
  \<open>2^1024 - 2^970\<close> on; if it is finite, it is a double as near to that integer as
  any double.
\<close>

theorem birth_records_have_year:
  assumes "e \<in> set (w_births (parseWikipediaContent content))"
  shows "\<exists>ds y info. e = ds @ y @ [58, 32] @ info \<and> digits ds \<and> (y = [] \<or> y = lit_nen)
           \<and> js_match re_bc_year e = None
           \<and> (\<exists>m. js_match re_ad_year e = Some (0, m) \<and> group m 1 = Some ds)
           \<and> extractYear e = parseInt ds
           \<and> number_le (Num 0) (extractYear e)
           \<and> (extractYear e = Num 0 \<longleftrightarrow> list_all (\<lambda>d. d = 48) ds)
           \<and> (digits_value ds \<le> 2 ^ 53 \<longrightarrow> extractYear e = Num (of_int (digits_value ds)))
           \<and> (extractYear e = Infinity \<longleftrightarrow> 2 ^ 1024 - 2 ^ 970 \<le> digits_value ds)
           \<and> (\<forall>v. extractYear e = Num v \<longrightarrow>
                 is_double v
                 \<and> (\<forall>d. is_double d \<and> 0 \<le> d \<longrightarrow>
                        \<bar>v - of_int (digits_value ds)\<bar> \<le> \<bar>d - of_int (digits_value ds)\<bar>))"
proof -
  from assms obtain line where "person_of_line re_birth_line cleanWikiText line = Some e"
    by (auto simp: parseWikipediaContent_def Let_def for_lines_set split: option.splits)
  from person_of_line_Some[OF this] obtain i m info where
    jm: "js_match re_birth_line line = Some (i, m)" and e: "e = dollar 1 m @ [58, 32] @ info"
    by blast
  from js_match_mem[OF jm] obtain p t where "m \<in> set (rmatch (re_person_line 43) (MS p t []))"
    by (auto simp: re_birth_line_def)
  from person_line_group1[OF this] obtain ds y where
    ds: "digits ds" and y: "y = [] \<or> y = lit_nen" and g: "group m 1 = Some (ds @ y)"
    by blast
  from e g have e': "e = ds @ y @ 58 # (32 # info)" by (simp add: dollar_def)
  from ds have "hd e \<noteq> 32000" unfolding e' by (cases ds) (auto simp: digits_def is_digit_def)
  then have bc: "js_match re_bc_year e = None" by (intro bc_no_match) simp
  from ad_match[OF ds y, of "32 # info"] have ad:
    "\<exists>m. js_match re_ad_year e = Some (0, m) \<and> group m 1 = Some ds" unfolding e' .
  have ey: "extractYear e = parseInt ds" unfolding e' by (rule extractYear_ad[OF ds y])
  have near: "\<forall>v. extractYear e = Num v \<longrightarrow>
                 is_double v
                 \<and> (\<forall>d. is_double d \<and> 0 \<le> d \<longrightarrow>
                        \<bar>v - of_int (digits_value ds)\<bar> \<le> \<bar>d - of_int (digits_value ds)\<bar>)"
    unfolding ey using parseInt_nearest[OF ds] by blast
  have exact: "digits_value ds \<le> 2 ^ 53 \<longrightarrow> extractYear e = Num (of_int (digits_value ds))"
    unfolding ey using parseInt_exact[OF ds] by blast
  have e'': "e = ds @ y @ [58, 32] @ info" using e' by simp
  show ?thesis
    apply (rule exI[of _ ds], rule exI[of _ y], rule exI[of _ info])
    apply (intro conjI)
    subgoal by (rule e'')
    subgoal by (rule ds)
    subgoal by (rule y)
    subgoal by (rule bc)
    subgoal by (rule ad)
    subgoal by (rule ey)
    subgoal unfolding ey by (rule parseInt_nonneg[OF ds])
    subgoal unfolding ey by (rule parseInt_zero[OF ds])
    subgoal by (rule exact)
    subgoal unfolding ey by (rule parseInt_Infinity[OF ds])
    subgoal by (rule near)
    done
qed

text \<open>The theorem at the record of the page \<^verbatim>\<open>== tanjoubi ==\n* 1990nen - NAME, ROLE\<close>.\<close>

theorem birth_records_have_year_witness:
  "[49, 57, 57, 48, 24180, 58, 32, 23665, 30000, 22826, 37070, 65288, 20467, 20778, 65289]
     \<in> set (w_births (parseWikipediaContent
      [61, 61, 32, 35477, 29983, 26085, 32, 61, 61, 10,
       42, 32, 49, 57, 57, 48, 24180, 32, 45, 32, 23665, 30000, 22826, 37070, 12289, 20467, 20778]))
   \<and> js_match re_bc_year
       [49, 57, 57, 48, 24180, 58, 32, 23665, 30000, 22826, 37070, 65288, 20467, 20778, 65289] = None
   \<and> number_le (Num 0) (extractYear
       [49, 57, 57, 48, 24180, 58, 32, 23665, 30000, 22826, 37070, 65288, 20467, 20778, 65289])"
proof -
  let ?c = "[61, 61, 32, 35477, 29983, 26085, 32, 61, 61, 10,
       42, 32, 49, 57, 57, 48, 24180, 32, 45, 32, 23665, 30000, 22826, 37070, 12289, 20467, 20778] :: jstring"
  let ?e = "[49, 57, 57, 48, 24180, 58, 32, 23665, 30000, 22826, 37070, 65288, 20467, 20778, 65289] :: jstring"
  have "w_births (parseWikipediaContent ?c) = [?e]" by code_simp
  then have mem: "?e \<in> set (w_births (parseWikipediaContent ?c))" by simp
  from birth_records_have_year[OF mem] mem show ?thesis by blast
qed

text \<open>
  Claim C10 as stated fails where it calls the year positive: the page
  \<^verbatim>\<open>== tanjoubi ==\n* 0nen - Yamada\<close> gives the birth record \<open>'0nen: Yamada'\<close>, whose
  year is parsed to 0.
\<close>

theorem birth_year_zero_counterexample:
  "w_births (parseWikipediaContent
      [61, 61, 32, 35477, 29983, 26085, 32, 61, 61, 10,
       42, 32, 48, 24180, 32, 45, 32, 89, 97, 109, 97, 100, 97])
     = [[48, 24180, 58, 32, 89, 97, 109, 97, 100, 97]]
   \<and> extractYear [48, 24180, 58, 32, 89, 97, 109, 97, 100, 97] = Num 0
   \<and> \<not> positive (extractYear [48, 24180, 58, 32, 89, 97, 109, 97, 100, 97])"
  by code_simp

section \<open>Random subset selection\<close>

lemma scale_bound:
  fixes r n N u :: rat
  assumes "0 < n" and "0 \<le> u" and "N \<le> n" and "r \<le> N / n - u"
  shows "r * n \<le> N - N * u"
proof -
  have "r * n \<le> (N / n - u) * n" using assms(1,4) by (intro mult_right_mono) simp_all
  also have "\<dots> = N - u * n" using assms(1) by (simp add: field_simps)
  also have "\<dots> \<le> N - u * N" using mult_left_mono[OF assms(3,2)] by simp
  finally show ?thesis by (simp add: mult.commute)
qed

lemma ceiling_grid:
  fixes a n c :: rat
  assumes "0 < n" and "0 < c"
  shows "a / n \<le> of_int \<lceil>a * c / n\<rceil> / c" and "of_int \<lceil>a * c / n\<rceil> / c < a / n + 1 / c"
proof -
  define M :: rat where "M = of_int \<lceil>a * c / n\<rceil>"
  have 1: "a * c / n \<le> M" unfolding M_def by (rule le_of_int_ceiling)
  have 2: "M < a * c / n + 1" unfolding M_def using ceiling_correct[of "a * c / n"] by linarith
  from 1 have "a * c \<le> M * n" using assms(1) by (simp only: pos_divide_le_eq)
  then show "a / n \<le> of_int \<lceil>a * c / n\<rceil> / c"
    using assms unfolding M_def[symmetric] by (simp add: field_simps)
  from 2 have "M * n < a * c + n" using assms(1) by (simp add: field_simps)
  then show "of_int \<lceil>a * c / n\<rceil> / c < a / n + 1 / c"
    using assms unfolding M_def[symmetric] by (simp add: field_simps)
qed

lemma nat_le_2_53: "j \<le> 2 ^ 53 \<Longrightarrow> int j \<le> 2 ^ 53"
  by (metis of_nat_le_iff of_nat_numeral of_nat_power)

lemma rand_index_ge:
  assumes "j \<le> 2 ^ 53" and "of_nat j \<le> r * (of_nat i + 1)"
  shows "j \<le> rand_index r i"
proof -
  have d: "is_double (of_int (int j))" using nat_le_2_53[OF assms(1)] by (intro is_double_of_int) simp_all
  from round_double_ge[OF d _ ] assms(2)
  have "of_int (int j) \<le> round_double (r * (of_nat i + 1))" by simp
  then have "int j \<le> \<lfloor>round_double (r * (of_nat i + 1))\<rfloor>" by (simp only: le_floor_iff)
  then show ?thesis by (simp add: rand_index_def)
qed

lemma rand_index_less:
  assumes "0 \<le> r" and "1 \<le> N" and "N \<le> 2 ^ 53"
    and "r * (of_nat i + 1) \<le> of_nat N - of_nat N * (1 / 2 ^ 53)"
  shows "rand_index r i < N"
proof -
  have a: "1 \<le> int N" using assms(2) by simp
  have c: "0 \<le> r * (of_nat i + 1)" using assms(1) by simp
  have "r * (of_nat i + 1) \<le> of_int (int N) - of_int (int N) / 2 ^ 53" using assms(4) by simp
  from round_double_below[OF a nat_le_2_53[OF assms(3)] c this]
  have "\<lfloor>round_double (r * (of_nat i + 1))\<rfloor> < int N" by (simp only: floor_less_iff)
  then show ?thesis using assms(2) by (simp add: rand_index_def)
qed

lemma rand_index_le:
  assumes "is_double r" and "0 \<le> r" and "r < 1" and "i < 2 ^ 53"
  shows "rand_index r i \<le> i"
proof -
  define n :: rat where "n = of_nat i + 1"
  have n: "0 < n" by (simp add: n_def add_pos_nonneg)
  have nS: "n = of_nat (Suc i)" by (simp add: n_def)
  from double_below_one[OF assms(1-3)] n have "r \<le> n / n - 1 / 2 ^ 53" by simp
  from scale_bound[OF n _ order_refl this]
  have "r * (of_nat i + 1) \<le> of_nat (Suc i) - of_nat (Suc i) * (1 / 2 ^ 53)"
    unfolding nS[symmetric] by (simp add: n_def)
  moreover have "Suc i \<le> 2 ^ 53" using assms(4) by simp
  ultimately have "rand_index r i < Suc i" using assms(2) by (intro rand_index_less) simp_all
  then show ?thesis by simp
qed

lemma rand_index_interval:
  assumes "is_double r" and "0 \<le> r" and "r < 1" and "i < 2 ^ 53"
  shows "of_nat j / (of_nat i + 1) \<le> r \<Longrightarrow> r \<le> (of_nat j + 1) / (of_nat i + 1) - 1 / 2 ^ 53
         \<Longrightarrow> rand_index r i = j"
    and "rand_index r i = j
         \<Longrightarrow> of_nat j / (of_nat i + 1) - 1 / 2 ^ 53 < r \<and> r < (of_nat j + 1) / (of_nat i + 1)"
proof -
  define n :: rat where "n = of_nat i + 1"
  have n: "0 < n" by (simp add: n_def add_pos_nonneg)
  have nS: "n = of_nat (Suc i)" by (simp add: n_def)
  have u: "(0::rat) \<le> 1 / 2 ^ 53" by simp
  {
    assume "of_nat j / (of_nat i + 1) \<le> r" and "r \<le> (of_nat j + 1) / (of_nat i + 1) - 1 / 2 ^ 53"
    then have lo: "of_nat j / n \<le> r" and hi: "r \<le> of_nat (Suc j) / n - 1 / 2 ^ 53"
      by (simp_all add: n_def add.commute)
    from lo assms(3) have "of_nat j / n < 1" by (rule le_less_trans)
    then have "(of_nat j :: rat) < of_nat (Suc i)" using n unfolding nS[symmetric]
      by (simp add: pos_divide_less_eq)
    then have ji: "j < Suc i" by (simp only: of_nat_less_iff)
    with assms(4) have j53: "j \<le> 2 ^ 53" "Suc j \<le> 2 ^ 53" by simp_all
    from lo have "of_nat j \<le> r * n" using n by (simp add: pos_divide_le_eq)
    then have "of_nat j \<le> r * (of_nat i + 1)" by (simp only: n_def)
    from rand_index_ge[OF j53(1) this] have 1: "j \<le> rand_index r i" .
    from ji have "Suc j \<le> Suc i" by simp
    then have "(of_nat (Suc j) :: rat) \<le> n" unfolding nS by (rule of_nat_mono)
    from scale_bound[OF n u this hi]
    have "r * (of_nat i + 1) \<le> of_nat (Suc j) - of_nat (Suc j) * (1 / 2 ^ 53)"
      by (simp only: n_def)
    from rand_index_less[OF assms(2) _ j53(2) this] have "rand_index r i < Suc j" by simp
    with 1 show "rand_index r i = j" by simp
  }
  {
    assume eq: "rand_index r i = j"
    from rand_index_le[OF assms] eq have ji: "j \<le> i" by simp
    with assms(4) have j53: "Suc j \<le> 2 ^ 53" "j \<le> 2 ^ 53" by simp_all
    have up: "r < of_nat (Suc j) / n"
    proof (rule ccontr)
      assume "\<not> r < of_nat (Suc j) / n"
      then have "of_nat (Suc j) / n \<le> r" by simp
      then have "of_nat (Suc j) \<le> r * n" using n by (simp only: pos_divide_le_eq)
      then have "of_nat (Suc j) \<le> r * (of_nat i + 1)" by (simp only: n_def)
      from rand_index_ge[OF j53(1) this] eq show False by simp
    qed
    have lo: "of_nat j / n - 1 / 2 ^ 53 < r"
    proof (rule ccontr)
      assume "\<not> of_nat j / n - 1 / 2 ^ 53 < r"
      then have le: "r \<le> of_nat j / n - 1 / 2 ^ 53" by simp
      show False
      proof (cases "j = 0")
        case True
        with le assms(2) show False by simp
      next
        case False
        then have j1: "1 \<le> j" by simp
        from ji have "j \<le> Suc i" by simp
        then have "(of_nat j :: rat) \<le> n" unfolding nS by (rule of_nat_mono)
        from scale_bound[OF n u this le]
        have "r * (of_nat i + 1) \<le> of_nat j - of_nat j * (1 / 2 ^ 53)"
          by (simp only: n_def)
        from rand_index_less[OF assms(2) j1 j53(2) this] eq show False by simp
      qed
    qed
    from lo up show "of_nat j / (of_nat i + 1) - 1 / 2 ^ 53 < r \<and> r < (of_nat j + 1) / (of_nat i + 1)"
      by (simp add: n_def add.commute)
  }
qed

lemma rand_index_realised:
  assumes "j \<le> i" and "i < 2 ^ 52"
  shows "\<exists>r. is_double r \<and> 0 \<le> r \<and> r < 1 \<and> rand_index r i = j"
proof -
  define n :: rat where "n = of_nat i + 1"
  have n: "0 < n" by (simp add: n_def add_pos_nonneg)
  have nS: "n = of_nat (Suc i)" by (simp add: n_def)
  define c :: rat where "c = 2 ^ 53"
  have c: "0 < c" by (simp add: c_def)
  define M where "M = \<lceil>of_nat j * c / n\<rceil>"
  define r :: rat where "r = of_int M / c"
  from assms(2) have "Suc i \<le> 2 ^ 52" by simp
  then have "(of_nat (Suc i) :: rat) \<le> of_nat (2 ^ 52)" by (rule of_nat_mono)
  then have "n * 2 \<le> c" unfolding nS c_def by simp
  then have gap: "2 / c \<le> 1 / n" using n c by (simp add: field_simps)
  have "0 \<le> of_nat j * c / n" using n c by simp
  then have "- 1 < of_nat j * c / n" by linarith
  then have M0: "0 \<le> M" unfolding M_def by (simp only: zero_le_ceiling)
  note G = ceiling_grid[OF n c, of "of_nat j", folded M_def r_def]
  have "of_nat j / n + 1 / c \<le> (of_nat j + 1) / n - 1 / c"
    using gap by (simp add: add_divide_distrib)
  with G(2) have hi: "r \<le> (of_nat j + 1) / n - 1 / c" by simp
  from assms(1) have "Suc j \<le> Suc i" by simp
  then have "(of_nat (Suc j) :: rat) \<le> n" unfolding nS by (rule of_nat_mono)
  then have "(of_nat j + 1) / n \<le> 1" using n by (simp add: pos_divide_le_eq)
  moreover have "0 < 1 / c" using c by simp
  ultimately have r1: "r < 1" using hi by linarith
  have r0: "0 \<le> r" using M0 c unfolding r_def by simp
  from r1 have "of_int M < c" using c unfolding r_def by (simp add: field_simps)
  then have "(of_int M :: rat) < of_int (2 ^ 53)" by (simp add: c_def)
  then have "M < 2 ^ 53" by (simp only: of_int_less_iff)
  then have "is_double (of_int M * 2 powi (- 53))" using M0 by (intro double_intro) simp_all
  moreover have "of_int M * 2 powi (- 53) = r"
    by (simp add: r_def c_def power_int_minus field_simps)
  ultimately have d: "is_double r" by simp
  have i53: "i < 2 ^ 53" using assms(2) by simp
  have lo': "of_nat j / (of_nat i + 1) \<le> r" using G(1) by (simp only: n_def)
  have hi': "r \<le> (of_nat j + 1) / (of_nat i + 1) - 1 / 2 ^ 53" using hi by (simp only: n_def c_def)
  from rand_index_interval(1)[OF d r0 r1 i53 lo' hi'] d r0 r1 show ?thesis by blast
qed

text \<open>The rounding of the product shows: \<open>0.3333333333333333\<close>, the double just
  below one third, times 3 is rounded to 1, and \<open>0.5714285714285714 * 7\<close> to 4.\<close>

lemma rand_index_rounds:
  "(6004799503160661 / 2 ^ 54 :: rat) * 3 < 1 \<and> rand_index (6004799503160661 / 2 ^ 54) 2 = 1
   \<and> (2573485501354569 / 2 ^ 52 :: rat) * 7 < 4 \<and> rand_index (2573485501354569 / 2 ^ 52) 6 = 4"
  by code_simp

lemma length_swap [simp]: "length (swap s i j) = length s"
  by (simp add: swap_def)

lemma nth_swap:
  "i < length s \<Longrightarrow> j < length s \<Longrightarrow> p < length s \<Longrightarrow>
   swap s i j ! p = (if p = j then s ! i else if p = i then s ! j else s ! p)"
  by (simp add: swap_def nth_list_update)

lemma mset_swap' [simp]: "i < length s \<Longrightarrow> j < length s \<Longrightarrow> mset (swap s i j) = mset s"
  unfolding swap_def by (rule mset_swap)

lemma valid_choices_Suc:
  "valid_choices js (Suc i) \<longleftrightarrow> (\<exists>j js'. js = j # js' \<and> j \<le> Suc i \<and> valid_choices js' i)"
proof
  assume v: "valid_choices js (Suc i)"
  then obtain j js' where js: "js = j # js'" by (cases js) (auto simp: valid_choices_def)
  from v js have "j \<le> Suc i" by (auto simp: valid_choices_def dest: spec[of _ 0])
  moreover have "valid_choices js' i"
    unfolding valid_choices_def
  proof (intro conjI allI impI)
    show "length js' = i" using v js by (simp add: valid_choices_def)
    fix t assume "t < i"
    then have "Suc t < Suc i" by simp
    with v have "js ! Suc t \<le> Suc i - Suc t" unfolding valid_choices_def by blast
    with js show "js' ! t \<le> i - t" by simp
  qed
  ultimately show "\<exists>j js'. js = j # js' \<and> j \<le> Suc i \<and> valid_choices js' i" using js by blast
next
  assume "\<exists>j js'. js = j # js' \<and> j \<le> Suc i \<and> valid_choices js' i"
  then obtain j js' where js: "js = j # js'" "j \<le> Suc i" "valid_choices js' i" by blast
  show "valid_choices js (Suc i)"
    unfolding valid_choices_def
  proof (intro conjI allI impI)
    show "length js = Suc i" using js by (simp add: valid_choices_def)
    fix t assume t: "t < Suc i"
    show "js ! t \<le> Suc i - t"
    proof (cases t)
      case 0
      with js show ?thesis by simp
    next
      case (Suc t')
      with t js show ?thesis by (simp add: valid_choices_def)
    qed
  qed
qed

lemma valid_choices_0 [simp]: "valid_choices js 0 \<longleftrightarrow> js = []"
  by (simp add: valid_choices_def)

lemma length_fy: "length (fy js i s) = length s"
  by (induction js i s rule: fy.induct) simp_all

lemma mset_fy: "valid_choices js i \<Longrightarrow> i < length s \<Longrightarrow> mset (fy js i s) = mset s"
proof (induction js i s rule: fy.induct)
  case (3 j js i s)
  from "3.prems" have "j \<le> Suc i" "valid_choices js i" by (auto simp: valid_choices_Suc)
  with 3 show ?case by simp
qed simp_all

lemma fy_above:
  "valid_choices js i \<Longrightarrow> i < p \<Longrightarrow> p < length s \<Longrightarrow> fy js i s ! p = s ! p"
proof (induction js i s rule: fy.induct)
  case (3 j js i s)
  from "3.prems" have j: "j \<le> Suc i" and v: "valid_choices js i" by (auto simp: valid_choices_Suc)
  have "fy (j # js) (Suc i) s ! p = swap s (Suc i) j ! p"
    using 3 v by simp
  also have "\<dots> = s ! p" using j "3.prems" by (simp add: nth_swap)
  finally show ?case .
qed simp_all

lemma fy_top:
  assumes "valid_choices js i" "j \<le> Suc i" "Suc i < length s"
  shows "fy (j # js) (Suc i) s ! Suc i = s ! j"
proof -
  have "fy (j # js) (Suc i) s ! Suc i = swap s (Suc i) j ! Suc i"
    using assms by (simp add: fy_above)
  also have "\<dots> = s ! j" using assms by (simp add: nth_swap)
  finally show ?thesis .
qed

lemma fy_inj:
  "valid_choices js1 i \<Longrightarrow> valid_choices js2 i \<Longrightarrow> i < length s \<Longrightarrow> distinct s \<Longrightarrow>
   fy js1 i s = fy js2 i s \<Longrightarrow> js1 = js2"
proof (induction i arbitrary: js1 js2 s)
  case 0
  then show ?case by simp
next
  case (Suc i)
  from Suc.prems obtain j1 r1 j2 r2 where
    js: "js1 = j1 # r1" "js2 = j2 # r2" and j: "j1 \<le> Suc i" "j2 \<le> Suc i"
    and v: "valid_choices r1 i" "valid_choices r2 i"
    by (auto simp: valid_choices_Suc)
  from Suc.prems(5) have "fy js1 (Suc i) s ! Suc i = fy js2 (Suc i) s ! Suc i" by simp
  then have "s ! j1 = s ! j2"
    using fy_top[OF v(1) j(1) Suc.prems(3)] fy_top[OF v(2) j(2) Suc.prems(3)] js by simp
  with Suc.prems(3,4) j have jj: "j1 = j2" by (simp add: nth_eq_iff_index_eq)
  let ?s = "swap s (Suc i) j1"
  have "distinct ?s" using Suc.prems(3,4) j
    by (metis mset_swap' mset_eq_imp_distinct_iff le_less_trans less_or_eq_imp_le not_less)
  moreover have "fy r1 i ?s = fy r2 i ?s" using Suc.prems(5) js jj by simp
  moreover have "i < length ?s" using Suc.prems(3) by simp
  ultimately have "r1 = r2" using Suc.IH[OF v] by blast
  with js jj show ?case by simp
qed

lemma fy_surj:
  "i < length s \<Longrightarrow> distinct s \<Longrightarrow> mset t = mset s \<Longrightarrow>
   (\<forall>p. i < p \<and> p < length s \<longrightarrow> t ! p = s ! p) \<Longrightarrow>
   \<exists>js. valid_choices js i \<and> fy js i s = t"
proof (induction i arbitrary: s)
  case 0
  have len: "length t = length s" using "0.prems"(3) by (metis size_mset)
  have "t = s"
  proof (rule nth_equalityI[OF len])
    fix p assume p: "p < length t"
    show "t ! p = s ! p"
    proof (cases p)
      case (Suc q)
      with p len "0.prems"(4) show ?thesis by simp
    next
      case 0
      from len \<open>0 < length s\<close> obtain a t' b s' where ts: "t = a # t'" "s = b # s'"
        by (cases t; cases s) auto
      have "t' = s'"
      proof (rule nth_equalityI)
        show "length t' = length s'" using len ts by simp
        fix q assume "q < length t'"
        with "0.prems"(4)[rule_format, of "Suc q"] ts len show "t' ! q = s' ! q" by simp
      qed
      with "0.prems"(3) ts have "a = b" by simp
      with 0 ts show ?thesis by simp
    qed
  qed
  then show ?case by simp
next
  case (Suc i)
  have len: "length t = length s" using Suc.prems(3) by (metis size_mset)
  have dt: "distinct t" using Suc.prems(2,3) by (metis mset_eq_imp_distinct_iff)
  have "t ! Suc i \<in> set s"
    using Suc.prems(1,3) len by (metis nth_mem set_mset_mset)
  then obtain j where j: "j < length s" "s ! j = t ! Suc i" by (auto simp: in_set_conv_nth)
  have jle: "j \<le> Suc i"
  proof (rule ccontr)
    assume "\<not> j \<le> Suc i"
    then have "Suc i < j" by simp
    with Suc.prems(4) j have "t ! j = t ! Suc i" by simp
    with dt len j \<open>Suc i < j\<close> Suc.prems(1) show False by (simp add: nth_eq_iff_index_eq)
  qed
  let ?s = "swap s (Suc i) j"
  have 1: "i < length ?s" using Suc.prems(1) by simp
  have 2: "distinct ?s" using Suc.prems(1,2) j
    by (metis mset_swap' mset_eq_imp_distinct_iff)
  have 3: "mset t = mset ?s" using Suc.prems(1,3) j by simp
  have 4: "\<forall>p. i < p \<and> p < length ?s \<longrightarrow> t ! p = ?s ! p"
  proof (intro allI impI)
    fix p assume p: "i < p \<and> p < length ?s"
    show "t ! p = ?s ! p"
    proof (cases "p = Suc i")
      case True
      with j Suc.prems(1) show ?thesis by (simp add: nth_swap)
    next
      case False
      with p have "Suc i < p" by simp
      with p j jle Suc.prems(1,4) show ?thesis by (simp add: nth_swap)
    qed
  qed
  from Suc.IH[OF 1 2 3 4] obtain js where "valid_choices js i" "fy js i ?s = t" by blast
  with jle have "valid_choices (j # js) (Suc i) \<and> fy (j # js) (Suc i) s = t"
    by (simp add: valid_choices_Suc)
  then show ?case by blast
qed

lemma choices_Suc:
  "map (\<lambda>t. rand_index (rnd (k + t)) (Suc i - t)) [0..<Suc i]
     = rand_index (rnd k) (Suc i) # map (\<lambda>t. rand_index (rnd (Suc k + t)) (i - t)) [0..<i]"
proof -
  have "[0..<Suc i] = 0 # map Suc [0..<i]"
    by (simp add: upt_conv_Cons map_Suc_upt del: upt_Suc)
  then show ?thesis by (simp add: comp_def del: upt_Suc)
qed

lemma shuffle_loop_fy:
  "shuffle_loop rnd k i s = (fy (map (\<lambda>t. rand_index (rnd (k + t)) (i - t)) [0..<i]) i s, k + i)"
proof (induction i arbitrary: k s)
  case 0
  then show ?case by simp
next
  case (Suc i)
  show ?case
    unfolding choices_Suc by (simp add: Suc.IH)
qed

lemma shuffle_loop_choices:
  "shuffle_loop rnd k (n - 1) s = (fy (choices rnd k n) (n - 1) s, k + (n - 1))"
  unfolding choices_def by (rule shuffle_loop_fy)

lemma valid_choices_random:
  assumes "valid_random rnd" and "i < 2 ^ 53"
  shows "valid_choices (map (\<lambda>t. rand_index (rnd (k + t)) (i - t)) [0..<i]) i"
proof -
  have "rand_index (rnd (k + t)) (i - t) \<le> i - t" for t
  proof -
    have "i - t < 2 ^ 53" using assms(2) by simp
    with assms(1) show ?thesis by (intro rand_index_le) (simp_all add: valid_random_def)
  qed
  then show ?thesis by (simp add: valid_choices_def)
qed

lemma valid_choices_choices:
  "valid_random rnd \<Longrightarrow> n < 2 ^ 53 \<Longrightarrow> valid_choices (choices rnd k n) (n - 1)"
  unfolding choices_def by (rule valid_choices_random) simp_all

lemma choices_realised:
  assumes "valid_choices js i" and "i < 2 ^ 52"
  shows "\<exists>rnd. valid_random rnd \<and> map (\<lambda>t. rand_index (rnd (k + t)) (i - t)) [0..<i] = js"
proof -
  define pick where
    "pick t = (SOME r. is_double r \<and> 0 \<le> r \<and> r < 1 \<and> rand_index r (i - t) = js ! t)" for t
  have pick: "is_double (pick t) \<and> 0 \<le> pick t \<and> pick t < 1
              \<and> rand_index (pick t) (i - t) = js ! t" if "t < i" for t
  proof -
    from that assms(1) have "js ! t \<le> i - t" by (simp add: valid_choices_def)
    moreover have "i - t < 2 ^ 52" using assms(2) by simp
    ultimately have "\<exists>r. is_double r \<and> 0 \<le> r \<and> r < 1 \<and> rand_index r (i - t) = js ! t"
      by (rule rand_index_realised)
    then show ?thesis unfolding pick_def by (rule someI_ex)
  qed
  let ?rnd = "\<lambda>m. if k \<le> m \<and> m - k < i then pick (m - k) else 0"
  have z: "is_double 0" by (simp add: is_double_def round_double_def)
  have v: "valid_random ?rnd"
    unfolding valid_random_def
  proof (intro allI)
    fix m
    show "is_double (?rnd m) \<and> 0 \<le> ?rnd m \<and> ?rnd m < 1"
      using pick[of "m - k"] z by (cases "k \<le> m \<and> m - k < i") simp_all
  qed
  have "map (\<lambda>t. rand_index (?rnd (k + t)) (i - t)) [0..<i] = js"
  proof (rule nth_equalityI)
    show "length (map (\<lambda>t. rand_index (?rnd (k + t)) (i - t)) [0..<i]) = length js"
      using assms by (simp add: valid_choices_def)
    fix t assume "t < length (map (\<lambda>t. rand_index (?rnd (k + t)) (i - t)) [0..<i])"
    then have t: "t < i" by simp
    then have "?rnd (k + t) = pick t" by simp
    with pick[OF t] have "rand_index (?rnd (k + t)) (i - t) = js ! t" by (simp only:)
    with t show "map (\<lambda>t. rand_index (?rnd (k + t)) (i - t)) [0..<i] ! t = js ! t"
      by (simp only: nth_map_upt length_upt minus_nat.diff_0 add_0)
  qed
  with v show ?thesis by blast
qed

lemma shuffle_reaches_every_permutation:
  assumes "distinct xs" and "mset ys = mset xs" and "length xs < 2 ^ 32"
  shows "\<exists>rnd. valid_random rnd \<and> fst (shuffle_loop rnd k (length xs - 1) xs) = ys"
proof (cases xs)
  case Nil
  with assms have "ys = []" by simp
  moreover have "valid_random (\<lambda>k. 0)" by (simp add: valid_random_def is_double_def round_double_def)
  ultimately show ?thesis using Nil by auto
next
  case (Cons x xs')
  then have i: "length xs - 1 < length xs" by simp
  have b: "length xs - 1 < 2 ^ 52" using assms(3) by simp
  have "\<forall>p. length xs - 1 < p \<and> p < length xs \<longrightarrow> ys ! p = xs ! p" by auto
  from fy_surj[OF i assms(1,2) this] obtain js where
    js: "valid_choices js (length xs - 1)" "fy js (length xs - 1) xs = ys" by blast
  from choices_realised[OF js(1) b, of k] obtain rnd where
    "valid_random rnd" "map (\<lambda>t. rand_index (rnd (k + t)) (length xs - 1 - t)) [0..<length xs - 1] = js"
    by blast
  with js show ?thesis by (auto simp: shuffle_loop_fy)
qed

lemma shuffle_determines_choices:
  assumes "distinct xs" and "valid_random r1" and "valid_random r2" and "length xs < 2 ^ 32"
    and "fst (shuffle_loop r1 k (length xs - 1) xs) = fst (shuffle_loop r2 k (length xs - 1) xs)"
  shows "choices r1 k (length xs) = choices r2 k (length xs)"
proof (cases xs)
  case Nil
  then show ?thesis by (simp add: choices_def)
next
  case (Cons x xs')
  then have i: "length xs - 1 < length xs" by simp
  have b: "length xs < 2 ^ 53" using assms(4) by simp
  from assms(5) have "fy (choices r1 k (length xs)) (length xs - 1) xs
                    = fy (choices r2 k (length xs)) (length xs - 1) xs"
    unfolding shuffle_loop_choices fst_conv .
  from fy_inj[OF valid_choices_choices[OF assms(2) b] valid_choices_choices[OF assms(3) b] i
         assms(1) this]
  show ?thesis .
qed

lemma shuffle_loop_mset:
  assumes "valid_random rnd" and "i < length s" and "length s < 2 ^ 32"
  shows "mset (fst (shuffle_loop rnd k i s)) = mset s"
proof -
  have "i < 2 ^ 53" using assms(2,3) by simp
  from valid_choices_random[OF assms(1) this] assms(2) show ?thesis
    by (simp add: shuffle_loop_fy mset_fy)
qed

lemma shuffle_loop_length: "length (fst (shuffle_loop rnd k i s)) = length s"
  by (simp add: shuffle_loop_fy length_fy)

lemma shuffle_loop_count: "snd (shuffle_loop rnd k i s) = k + i"
  by (simp add: shuffle_loop_fy)

lemma getRandomItems_small:
  "length (cells h array) \<le> cnt \<Longrightarrow> getRandomItems rnd k h array cnt = (h, array, k)"
  by (simp add: getRandomItems_def)

lemma getRandomItems_large:
  assumes "cnt < length (cells h array)" and "array < next_ref h"
  shows "\<exists>h'. getRandomItems rnd k h array cnt
               = (h', Suc (next_ref h), k + (length (cells h array) - 1))
           \<and> cells h' (Suc (next_ref h))
               = take cnt (fst (shuffle_loop rnd k (length (cells h array) - 1) (cells h array)))
           \<and> (\<forall>r < next_ref h. cells h' r = cells h r)
           \<and> next_ref h' = Suc (Suc (next_ref h))"
  using assms
  by (simp add: getRandomItems_def alloc_def Let_def split_def slice0_def shuffle_loop_count)

lemma take_shuffle_subset:
  assumes "valid_random rnd" and "xs \<noteq> []" and "length xs < 2 ^ 32"
  shows "mset (take cnt (fst (shuffle_loop rnd k (length xs - 1) xs))) \<subseteq># mset xs"
proof -
  let ?s = "fst (shuffle_loop rnd k (length xs - 1) xs)"
  from assms(2) have "length xs - 1 < length xs" by (cases xs) auto
  from shuffle_loop_mset[OF assms(1) this assms(3)] have m: "mset ?s = mset xs" .
  have "mset (take cnt ?s) \<subseteq># mset (take cnt ?s) + mset (drop cnt ?s)" by simp
  also have "\<dots> = mset ?s" by (metis append_take_drop_id mset_append)
  finally show ?thesis using m by simp
qed

text \<open>
  Claim C3. Let the array be an object of the store, of a length below \<open>2^32\<close> as every
  array is, and let every outcome of \<open>Math.random()\<close> be a double in \<open>[0, 1)\<close>. If
  the array has at most \<open>cnt\<close> elements, \<open>getRandomItems\<close> returns the very same
  array, the store is unchanged and no random number is drawn. Otherwise it returns a
  new array of exactly \<open>cnt\<close> elements, which are elements of the given array with no
  position used twice (a sub-multiset; distinct when the given elements are distinct);
  no array that existed before, the given one included, is changed; and the result is
  the first \<open>cnt\<close> elements of the shuffle of the given array, which is a permutation
  of it. The shuffle is the unbiased one: for distinct elements every permutation is the
  outcome of some random outcomes, and two runs with the same outcome drew the same
  indices in every round, so the permutations correspond one to one to the sequences of
  indices drawn; and in round \<open>i\<close> the index drawn is at most \<open>i\<close> and the index
  \<open>j\<close> is drawn by the outcomes \<open>r\<close> from \<open>j / (i + 1)\<close> to \<open>(j + 1) / (i + 1)\<close>,
  an interval of the same length \<open>1 / (i + 1)\<close> for every \<open>j\<close>. The product
  \<open>r * (i + 1)\<close> is rounded to a double, which makes each end of the interval exact up
  to \<open>2^-53\<close>, the distance of the doubles just below 1.
\<close>

theorem getRandomItems_selects:
  assumes "array < next_ref h" and "valid_random rnd" and "length (cells h array) < 2 ^ 32"
  shows "(length (cells h array) \<le> cnt \<longrightarrow> getRandomItems rnd k h array cnt = (h, array, k))
    \<and> (cnt < length (cells h array) \<longrightarrow>
         (\<exists>h' result k'. getRandomItems rnd k h array cnt = (h', result, k')
            \<and> length (cells h' result) = cnt
            \<and> mset (cells h' result) \<subseteq># mset (cells h array)
            \<and> (distinct (cells h array) \<longrightarrow> distinct (cells h' result))
            \<and> (\<forall>r < next_ref h. cells h' r = cells h r)
            \<and> next_ref h \<le> result
            \<and> cells h' result
                = take cnt (fst (shuffle_loop rnd k (length (cells h array) - 1) (cells h array)))
            \<and> mset (fst (shuffle_loop rnd k (length (cells h array) - 1) (cells h array)))
                = mset (cells h array)))
    \<and> (distinct xs \<and> mset ys = mset xs \<and> length xs < 2 ^ 32 \<longrightarrow>
         (\<exists>rnd'. valid_random rnd' \<and> fst (shuffle_loop rnd' k (length xs - 1) xs) = ys))
    \<and> (distinct xs \<and> length xs < 2 ^ 32 \<and> valid_random rnd'
          \<and> fst (shuffle_loop rnd k (length xs - 1) xs) = fst (shuffle_loop rnd' k (length xs - 1) xs)
         \<longrightarrow> choices rnd k (length xs) = choices rnd' k (length xs))
    \<and> (is_double r \<and> 0 \<le> r \<and> r < 1 \<and> i < 2 ^ 32 \<longrightarrow>
         rand_index r i \<le> i
         \<and> (of_nat j / (of_nat i + 1) \<le> r \<and> r \<le> (of_nat j + 1) / (of_nat i + 1) - 1 / 2 ^ 53
              \<longrightarrow> rand_index r i = j)
         \<and> (rand_index r i = j
              \<longrightarrow> of_nat j / (of_nat i + 1) - 1 / 2 ^ 53 < r \<and> r < (of_nat j + 1) / (of_nat i + 1)))"
proof (intro conjI impI)
  assume "length (cells h array) \<le> cnt"
  then show "getRandomItems rnd k h array cnt = (h, array, k)" by (rule getRandomItems_small)
next
  assume big: "cnt < length (cells h array)"
  let ?xs = "cells h array"
  let ?s = "fst (shuffle_loop rnd k (length ?xs - 1) ?xs)"
  from big have ne: "?xs \<noteq> []" by auto
  then have i: "length ?xs - 1 < length ?xs" by (cases ?xs) auto
  from getRandomItems_large[OF big assms(1), of rnd k] obtain h' where
    g: "getRandomItems rnd k h array cnt = (h', Suc (next_ref h), k + (length ?xs - 1))"
    and c: "cells h' (Suc (next_ref h)) = take cnt ?s"
    and f: "\<forall>r < next_ref h. cells h' r = cells h r"
    by blast
  have m: "mset ?s = mset ?xs" by (rule shuffle_loop_mset[OF assms(2) i assms(3)])
  have len: "length (cells h' (Suc (next_ref h))) = cnt"
    using big by (simp add: c shuffle_loop_length)
  have sub: "mset (cells h' (Suc (next_ref h))) \<subseteq># mset ?xs"
    unfolding c by (rule take_shuffle_subset[OF assms(2) ne assms(3)])
  have dis: "distinct ?xs \<longrightarrow> distinct (cells h' (Suc (next_ref h)))"
  proof
    assume "distinct ?xs"
    with m have "distinct ?s" by (metis mset_eq_imp_distinct_iff)
    then show "distinct (cells h' (Suc (next_ref h)))" unfolding c by (rule distinct_take)
  qed
  show "\<exists>h' result k'. getRandomItems rnd k h array cnt = (h', result, k')
            \<and> length (cells h' result) = cnt
            \<and> mset (cells h' result) \<subseteq># mset (cells h array)
            \<and> (distinct (cells h array) \<longrightarrow> distinct (cells h' result))
            \<and> (\<forall>r < next_ref h. cells h' r = cells h r)
            \<and> next_ref h \<le> result
            \<and> cells h' result
                = take cnt (fst (shuffle_loop rnd k (length (cells h array) - 1) (cells h array)))
            \<and> mset (fst (shuffle_loop rnd k (length (cells h array) - 1) (cells h array)))
                = mset (cells h array)"
    apply (rule exI[of _ h'], rule exI[of _ "Suc (next_ref h)"],
           rule exI[of _ "k + (length ?xs - 1)"])
    using g len sub dis f c m by simp
next
  assume "distinct xs \<and> mset ys = mset xs \<and> length xs < 2 ^ 32"
  then show "\<exists>rnd'. valid_random rnd' \<and> fst (shuffle_loop rnd' k (length xs - 1) xs) = ys"
    using shuffle_reaches_every_permutation[of xs ys k] by blast
next
  assume "distinct xs \<and> length xs < 2 ^ 32 \<and> valid_random rnd'
          \<and> fst (shuffle_loop rnd k (length xs - 1) xs) = fst (shuffle_loop rnd' k (length xs - 1) xs)"
  then show "choices rnd k (length xs) = choices rnd' k (length xs)"
    using shuffle_determines_choices[of xs rnd rnd' k] assms(2) by blast
next
  assume a: "is_double r \<and> 0 \<le> r \<and> r < 1 \<and> i < 2 ^ 32"
  then have i: "i < 2 ^ 53" by simp
  from a i show "rand_index r i \<le> i" by (intro rand_index_le) simp_all
  {
    assume "of_nat j / (of_nat i + 1) \<le> r \<and> r \<le> (of_nat j + 1) / (of_nat i + 1) - 1 / 2 ^ 53"
    with a i show "rand_index r i = j" by (intro rand_index_interval(1)) simp_all
  }
  {
    assume "rand_index r i = j"
    with a i rand_index_interval(2)[of r i j]
    show "of_nat j / (of_nat i + 1) - 1 / 2 ^ 53 < r" and "r < (of_nat j + 1) / (of_nat i + 1)"
      by blast+
  }
qed

text \<open>The theorem at an array of ten elements with target count 5 (five distinct elements
  of the array come back and the array itself is as before) and at an array of three
  elements (the same array comes back), with every random outcome
  \<open>0.3333333333333333\<close>, the double \<open>6004799503160661 / 2^54\<close>: the indices drawn
  are 3, 3, 2, 2, 2, 1, 1, 1, 0, the index 1 of round 2 by the rounding of the
  product.\<close>

theorem getRandomItems_selects_witness:
  "0 < next_ref heap10 \<and> valid_random (\<lambda>k. 6004799503160661 / 2 ^ 54)
   \<and> cells heap10 0 = [1, 2, 3, 4, 5, 6, 7, 8, 9, 10]
   \<and> (case getRandomItems (\<lambda>k. 6004799503160661 / 2 ^ 54) 0 heap10 0 5 of
        (h', result, k') \<Rightarrow>
          cells h' result = [6, 1, 9, 5, 2] \<and> cells h' 0 = [1, 2, 3, 4, 5, 6, 7, 8, 9, 10] \<and> k' = 9)
   \<and> choices (\<lambda>k. 6004799503160661 / 2 ^ 54) 0 10 = [3, 3, 2, 2, 2, 1, 1, 1, 0]
   \<and> getRandomItems (\<lambda>k. 6004799503160661 / 2 ^ 54) 0 heap3 0 5 = (heap3, 0, 0)
   \<and> (\<exists>h' result k'. getRandomItems (\<lambda>k. 6004799503160661 / 2 ^ 54) 0 heap10 0 5 = (h', result, k')
         \<and> length (cells h' result) = 5
         \<and> mset (cells h' result) \<subseteq># mset (cells heap10 0)
         \<and> distinct (cells h' result))"
proof -
  let ?rnd = "\<lambda>k::nat. 6004799503160661 / 2 ^ 54 :: rat"
  have a: "0 < next_ref heap10" by (simp add: heap10_def)
  have a3: "0 < next_ref heap3" by (simp add: heap3_def)
  have "is_double (6004799503160661 / 2 ^ 54)" by code_simp
  then have v: "valid_random ?rnd" by (simp add: valid_random_def)
  have c: "cells heap10 0 = [1, 2, 3, 4, 5, 6, 7, 8, 9, 10]" by (simp add: heap10_def)
  have b: "length (cells heap10 0) < 2 ^ 32" by (simp add: c)
  have c3: "length (cells heap3 0) \<le> 5" by (simp add: heap3_def)
  have b3: "length (cells heap3 0) < 2 ^ 32" by (simp add: heap3_def)
  have e: "(case getRandomItems ?rnd 0 heap10 0 5 of
        (h', result, k') \<Rightarrow>
          cells h' result = [6, 1, 9, 5, 2] \<and> cells h' 0 = [1, 2, 3, 4, 5, 6, 7, 8, 9, 10] \<and> k' = 9)"
    by code_simp
  have ch: "choices ?rnd 0 10 = [3, 3, 2, 2, 2, 1, 1, 1, 0]" by code_simp
  have s: "getRandomItems ?rnd 0 heap3 0 5 = (heap3, 0, 0)"
    by (rule getRandomItems_selects[OF a3 v b3, of 5 0, THEN conjunct1, rule_format, OF c3])
  have d: "distinct (cells heap10 0)" "5 < length (cells heap10 0)" by (simp_all add: c)
  from getRandomItems_selects[OF a v b, of 5 0, THEN conjunct2, THEN conjunct1, rule_format, OF d(2)]
  obtain h' result k' where
    g: "getRandomItems ?rnd 0 heap10 0 5 = (h', result, k')"
    and l: "length (cells h' result) = 5"
    and m: "mset (cells h' result) \<subseteq># mset (cells heap10 0)"
    and di: "distinct (cells heap10 0) \<longrightarrow> distinct (cells h' result)"
    by blast
  from di d(1) have "distinct (cells h' result)" by (rule mp)
  with g l m have x: "\<exists>h' result k'. getRandomItems ?rnd 0 heap10 0 5 = (h', result, k')
         \<and> length (cells h' result) = 5
         \<and> mset (cells h' result) \<subseteq># mset (cells heap10 0)
         \<and> distinct (cells h' result)"
    by (intro exI conjI)
  from a v c e ch s x show ?thesis by (intro conjI)
qed

section \<open>Aggregation without the flower\<close>

lemma getRandomItems_value:
  assumes "array < next_ref h"
  shows "\<exists>h' result. getRandomItems rnd k h array cnt
                        = (h', result, snd (random_items rnd k (cells h array) cnt))
           \<and> cells h' result = fst (random_items rnd k (cells h array) cnt)
           \<and> (\<forall>r < next_ref h. r \<noteq> result \<longrightarrow> cells h' r = cells h r)
           \<and> result < next_ref h' \<and> next_ref h \<le> next_ref h'
           \<and> (result = array \<or> next_ref h \<le> result)"
proof (cases "length (cells h array) \<le> cnt")
  case True
  then show ?thesis using assms by (simp add: getRandomItems_small random_items_def)
next
  case False
  then have big: "cnt < length (cells h array)" by simp
  from getRandomItems_large[OF big assms, of rnd k] obtain h' where
    "getRandomItems rnd k h array cnt = (h', Suc (next_ref h), k + (length (cells h array) - 1))"
    "cells h' (Suc (next_ref h))
       = take cnt (fst (shuffle_loop rnd k (length (cells h array) - 1) (cells h array)))"
    "\<forall>r < next_ref h. cells h' r = cells h r"
    "next_ref h' = Suc (Suc (next_ref h))"
    by blast
  with False show ?thesis by (simp add: random_items_def)
qed

lemma fetchTodayInfo_value:
  assumes "php_fetch w = Inr htmlContent"
  shows "fetchTodayInfo w =
     Some \<lparr> date = getTodayDisplayString w,
            events = parsePhpTodayInfo (getTodayDisplayString w) htmlContent,
            historical = sortByYear (fst (random_items (random w) 0
                           (w_historical (fetchWikipediaInfo w)) 5)),
            births = sortByYear (fst (random_items (random w)
                           (snd (random_items (random w) 0 (w_historical (fetchWikipediaInfo w)) 5))
                           (w_births (fetchWikipediaInfo w)) 5)),
            birthFlower = fetchBirthFlower w \<rparr>"
proof -
  let ?hist = "w_historical (fetchWikipediaInfo w)"
  let ?bs = "w_births (fetchWikipediaInfo w)"
  let ?h0 = "\<lparr> cells = (\<lambda>r. []), next_ref = 0 \<rparr> :: jstring heap"
  let ?h1 = "fst (alloc ?h0 ?hist)"
  let ?h2 = "fst (alloc ?h1 ?bs)"
  have h2: "cells ?h2 0 = ?hist" "cells ?h2 1 = ?bs" "next_ref ?h2 = 2"
    by (simp_all add: alloc_def)
  have r: "snd (alloc ?h0 ?hist) = 0" "snd (alloc ?h1 ?bs) = 1" by (simp_all add: alloc_def)
  from getRandomItems_value[of 0 ?h2 "random w" 0 5] h2 obtain h3 rh where
    g1: "getRandomItems (random w) 0 ?h2 0 5 = (h3, rh, snd (random_items (random w) 0 ?hist 5))"
    and c1: "cells h3 rh = fst (random_items (random w) 0 ?hist 5)"
    and f1: "\<forall>r < 2. r \<noteq> rh \<longrightarrow> cells h3 r = cells ?h2 r"
    and n1: "rh < next_ref h3" "2 \<le> next_ref h3" "rh = 0 \<or> 2 \<le> rh"
    by auto
  let ?k1 = "snd (random_items (random w) 0 ?hist 5)"
  have a1: "1 < next_ref h3" using n1 by simp
  have b3: "cells h3 1 = ?bs" using f1 n1(3) h2 by auto
  from getRandomItems_value[OF a1, of "random w" ?k1 5] b3 obtain h4 rb where
    g2: "getRandomItems (random w) ?k1 h3 1 5 = (h4, rb, snd (random_items (random w) ?k1 ?bs 5))"
    and c2: "cells h4 rb = fst (random_items (random w) ?k1 ?bs 5)"
    and f2: "\<forall>r < next_ref h3. r \<noteq> rb \<longrightarrow> cells h4 r = cells h3 r"
    and n2: "rb = 1 \<or> next_ref h3 \<le> rb"
    by auto
  have ne: "rh \<noteq> rb" using n1 n2 by auto
  have c1': "cells h4 rh = fst (random_items (random w) 0 ?hist 5)"
    using f2 n1(1) ne c1 by simp
  show ?thesis
    using assms g1 g2 c1' c2 ne r
    by (simp add: fetchTodayInfo_def Let_def split_def)
qed

lemma length_random_items: "length (fst (random_items rnd k xs cnt)) = min cnt (length xs)"
  by (simp add: random_items_def shuffle_loop_length)

lemma mset_random_items:
  assumes "valid_random rnd" and "length xs < 2 ^ 32"
  shows "mset (fst (random_items rnd k xs cnt)) \<subseteq># mset xs"
proof (cases "length xs \<le> cnt")
  case True
  then show ?thesis by (simp add: random_items_def)
next
  case False
  then have "xs \<noteq> []" by auto
  from take_shuffle_subset[OF assms(1) this assms(2)] False show ?thesis
    by (simp add: random_items_def)
qed

lemma length_sortByYear: "length (sortByYear items) = length items"
  using sortByYear_mset[of items] by (metis size_mset)

lemma fetchBirthFlower_fails:
  "flower_fetch w = Inl e \<or> flower_fetch w = Inr None \<or> flower_fetch w = Inr (Some [])
   \<Longrightarrow> fetchBirthFlower w = None"
  by (auto simp: fetchBirthFlower_def)

lemma fetchWikipediaInfo_flower [simp]:
  "fetchWikipediaInfo (w\<lparr> flower_fetch := f \<rparr>) = fetchWikipediaInfo w"
  by (simp add: fetchWikipediaInfo_def)

lemma getTodayDisplayString_flower [simp]:
  "getTodayDisplayString (w\<lparr> flower_fetch := f \<rparr>) = getTodayDisplayString w"
  by (simp add: getTodayDisplayString_def)

text \<open>
  Claim C8. If the primary fetch succeeds and the flower lookup throws or yields no
  flower, the run still produces a digest, with no flower field. Its date is that of
  the day and its anniversaries are those parsed from the page. With \<open>H\<close> the
  historical events and \<open>B\<close> the births that the Wikipedia page gave, its historical
  events are \<open>H\<close> sorted by year if \<open>H\<close> has at most five records, and else the first
  five of the shuffle of \<open>H\<close>, sorted by year; its births are the same of \<open>B\<close>, the
  shuffle going on in the sequence of random outcomes where the first one stopped. So
  they are as many as the page gave, up to five each (non-empty when the page gave
  any), and records of the page, none twice. Date, anniversaries, events and births are
  exactly those of the run with any other outcome of the flower lookup. The run is not
  aborted: with a webhook configured its first post is the formatted digest.
\<close>

theorem flower_failure_keeps_digest:
  assumes "php_fetch w = Inr htmlContent"
    and "flower_fetch w = Inl e \<or> flower_fetch w = Inr None \<or> flower_fetch w = Inr (Some [])"
    and "H = w_historical (fetchWikipediaInfo w)"
    and "B = w_births (fetchWikipediaInfo w)"
  shows "\<exists>d. fetchTodayInfo w = Some d
           \<and> birthFlower d = None
           \<and> date d = getTodayDisplayString w
           \<and> events d = parsePhpTodayInfo (getTodayDisplayString w) htmlContent
           \<and> historical d
               = sortByYear (if length H \<le> 5 then H
                             else take 5 (fst (shuffle_loop (random w) 0 (length H - 1) H)))
           \<and> births d
               = sortByYear (if length B \<le> 5 then B
                             else take 5 (fst (shuffle_loop (random w)
                                    (if length H \<le> 5 then 0 else length H - 1) (length B - 1) B)))
           \<and> length (historical d) = min 5 (length H)
           \<and> length (births d) = min 5 (length B)
           \<and> (valid_random (random w) \<and> length H < 2 ^ 32 \<and> length B < 2 ^ 32 \<longrightarrow>
                  mset (historical d) \<subseteq># mset H \<and> mset (births d) \<subseteq># mset B)
           \<and> (\<forall>f. \<exists>d'. fetchTodayInfo (w\<lparr> flower_fetch := f \<rparr>) = Some d'
                  \<and> date d' = date d \<and> events d' = events d
                  \<and> historical d' = historical d \<and> births d' = births d)
           \<and> (\<forall>url. webhook_url w = Some url \<and> url \<noteq> [] \<longrightarrow>
                  (\<exists>later. main w = formatSlackMessage d # later))"
proof -
  let ?k1 = "snd (random_items (random w) 0 H 5)"
  let ?d = "\<lparr> date = getTodayDisplayString w,
            events = parsePhpTodayInfo (getTodayDisplayString w) htmlContent,
            historical = sortByYear (fst (random_items (random w) 0 H 5)),
            births = sortByYear (fst (random_items (random w) ?k1 B 5)),
            birthFlower = fetchBirthFlower w \<rparr>"
  have d: "fetchTodayInfo w = Some ?d"
    unfolding assms(3,4) by (rule fetchTodayInfo_value[OF assms(1)])
  have nf: "birthFlower ?d = None" using fetchBirthFlower_fails[OF assms(2)] by simp
  have k1: "?k1 = (if length H \<le> 5 then 0 else length H - 1)"
    by (simp add: random_items_def)
  have hv: "historical ?d
               = sortByYear (if length H \<le> 5 then H
                             else take 5 (fst (shuffle_loop (random w) 0 (length H - 1) H)))"
    by (simp add: random_items_def)
  have bv: "births ?d
               = sortByYear (if length B \<le> 5 then B
                             else take 5 (fst (shuffle_loop (random w)
                                    (if length H \<le> 5 then 0 else length H - 1) (length B - 1) B)))"
    unfolding k1[symmetric] by (simp add: random_items_def)
  have sub: "mset (historical ?d) \<subseteq># mset H \<and> mset (births ?d) \<subseteq># mset B"
    if "valid_random (random w) \<and> length H < 2 ^ 32 \<and> length B < 2 ^ 32"
    using that by (simp add: sortByYear_mset mset_random_items)
  have other: "\<exists>d'. fetchTodayInfo (w\<lparr> flower_fetch := f \<rparr>) = Some d'
                  \<and> date d' = date ?d \<and> events d' = events ?d
                  \<and> historical d' = historical ?d \<and> births d' = births ?d" for f
  proof -
    have "php_fetch (w\<lparr> flower_fetch := f \<rparr>) = Inr htmlContent" using assms(1) by simp
    from fetchTodayInfo_value[OF this] show ?thesis by (simp add: assms(3,4))
  qed
  have post: "\<exists>later. main w = formatSlackMessage ?d # later"
    if "webhook_url w = Some url \<and> url \<noteq> []" for url
    using that d
    by (auto simp: main_def postToSlack_def Let_def split: sum.splits prod.splits if_splits)
  show ?thesis
    apply (rule exI[of _ ?d])
    apply (intro conjI allI impI)
    subgoal by (rule d)
    subgoal by (rule nf)
    subgoal by simp
    subgoal by simp
    subgoal by (rule hv)
    subgoal by (rule bv)
    subgoal by (simp add: length_sortByYear length_random_items)
    subgoal by (simp add: length_sortByYear length_random_items)
    subgoal using sub by blast
    subgoal using sub by blast
    subgoal for f by (rule other)
    subgoal for url by (rule post)
    done
qed

text \<open>The theorem at the run \<open>world_flower_down\<close>: the date is \<open>'8gatsu 10nichi'\<close>,
  with two anniversaries, one event, one birth and no flower.\<close>

theorem flower_failure_keeps_digest_witness:
  "flower_fetch world_flower_down = Inl (Exn [116, 105, 109, 101, 111, 117, 116])
   \<and> (\<exists>d. fetchTodayInfo world_flower_down = Some d
         \<and> birthFlower d = None
         \<and> date d = [56, 26376, 49, 48, 26085]
         \<and> events d = [[72, 97, 116, 32, 68, 97, 121], [72, 101, 97, 114, 116, 32, 68, 97, 121]]
         \<and> historical d = [[49, 57, 57, 48, 24180, 58, 32, 83, 111, 109, 101, 116, 104, 105, 110,
              103, 32, 104, 97, 112, 112, 101, 110, 101, 100, 32, 104, 101, 114, 101, 32, 116,
              111, 100, 97, 121]]
         \<and> births d = [[49, 57, 57, 48, 24180, 58, 32, 23665, 30000, 22826, 37070, 65288, 20467,
              20778, 65289]])"
proof -
  let ?html = "[60, 104, 50, 62, 35352, 24565, 26085, 12539, 34892, 20107, 12539, 12362,
         31085, 12426, 60, 47, 104, 50, 62, 60, 112, 62, 9679, 72, 97, 116, 32, 68, 97, 121, 44,
         9679, 72, 101, 97, 114, 116, 32, 68, 97, 121, 60, 47, 112, 62, 27508, 21490, 19978,
         12398, 20986, 26469, 20107] :: jstring"
  let ?H = "[[49, 57, 57, 48, 24180, 58, 32, 83, 111, 109, 101, 116, 104, 105, 110,
              103, 32, 104, 97, 112, 112, 101, 110, 101, 100, 32, 104, 101, 114, 101, 32, 116,
              111, 100, 97, 121]] :: jstring list"
  let ?B = "[[49, 57, 57, 48, 24180, 58, 32, 23665, 30000, 22826, 37070, 65288, 20467,
              20778, 65289]] :: jstring list"
  have p: "php_fetch world_flower_down = Inr ?html" by (simp add: world_flower_down_def)
  have f: "flower_fetch world_flower_down = Inl (Exn [116, 105, 109, 101, 111, 117, 116])"
    by (simp add: world_flower_down_def)
  have dt: "getTodayDisplayString world_flower_down = [56, 26376, 49, 48, 26085]" by code_simp
  have ev: "parsePhpTodayInfo [56, 26376, 49, 48, 26085] ?html
              = [[72, 97, 116, 32, 68, 97, 121], [72, 101, 97, 114, 116, 32, 68, 97, 121]]"
    by code_simp
  have wh: "?H = w_historical (fetchWikipediaInfo world_flower_down)" by code_simp
  have wb: "?B = w_births (fetchWikipediaInfo world_flower_down)" by code_simp
  have sh: "sortByYear ?H = ?H" by code_simp
  have sb: "sortByYear ?B = ?B" by code_simp
  from flower_failure_keeps_digest[OF p disjI1[OF f] wh wb] obtain d where
    "fetchTodayInfo world_flower_down = Some d" "birthFlower d = None"
    "date d = getTodayDisplayString world_flower_down"
    "events d = parsePhpTodayInfo (getTodayDisplayString world_flower_down) ?html"
    "historical d = sortByYear (if length ?H \<le> 5 then ?H
                      else take 5 (fst (shuffle_loop (random world_flower_down) 0 (length ?H - 1) ?H)))"
    "births d = sortByYear (if length ?B \<le> 5 then ?B
                      else take 5 (fst (shuffle_loop (random world_flower_down)
                             (if length ?H \<le> 5 then 0 else length ?H - 1) (length ?B - 1) ?B)))"
    by blast
  with dt ev sh sb f show ?thesis by simp
qed


end
